theory Spec2Isabelle
  imports
    Main
    "HOL-Library.Word"
    "HOL-Library.Sublist"
    "HOL-Library.Char_ord"
    "HOL-Library.List_Lexorder"
    "HOL-Library.Multiset"
begin

section \<open>The file system seen by the Disk Space Analyzer\<close>

text \<open>
  The analyzer (\<^verbatim>\<open>Disk Space Analyzer/main.py\<close>, class \<^verbatim>\<open>DiskAnalyzer\<close>) only reads
  the file system. The file system is a finite tree, as \<^verbatim>\<open>os.scandir\<close> lists it without
  following links:
  \<^item> a regular file has a name, its bytes, and the outcome of \<^verbatim>\<open>os.stat\<close> and of
    \<^verbatim>\<open>open(..., "rb")\<close>/\<^verbatim>\<open>read\<close> on it (\<open>None\<close>: the call succeeds);
  \<^item> a directory has a name, the outcome of listing it, and its entries in the order
    \<^verbatim>\<open>os.scandir\<close> returns them;
  \<^item> a symbolic link has a name and what it resolves to (\<open>None\<close>: dangling or a loop).
  The size \<^verbatim>\<open>st_size\<close> of a file is the length of its bytes. Every operating-system call is
  answered from the node a path was listed for: the tree does not change during a scan, and
  the path string itself only labels results and messages.
\<close>

type_synonym byte = "8 word"

datatype oserr = EACCES | ENOENT | ENOTDIR | EISDIR | ELOOP | EIO

datatype exn = OSError oserr string | ValueError string

datatype fsnode =
    File string "byte list" "oserr option" "oserr option"
  | Dir string "oserr option" "fsnode list"
  | Symlink string "fsnode option"

fun node_name :: "fsnode \<Rightarrow> string" where
  "node_name (File n d s r) = n"
| "node_name (Dir n l cs) = n"
| "node_name (Symlink n t) = n"

text \<open>\<^verbatim>\<open>str(e)\<close> of an \<^verbatim>\<open>OSError\<close> built by the interpreter from \<^verbatim>\<open>errno\<close> and the file name.\<close>

fun strerror :: "oserr \<Rightarrow> string" where
  "strerror EACCES = ''[Errno 13] Permission denied''"
| "strerror ENOENT = ''[Errno 2] No such file or directory''"
| "strerror ENOTDIR = ''[Errno 20] Not a directory''"
| "strerror EISDIR = ''[Errno 21] Is a directory''"
| "strerror ELOOP = ''[Errno 40] Too many levels of symbolic links''"
| "strerror EIO = ''[Errno 5] Input/output error''"

fun str_exn :: "exn \<Rightarrow> string" where
  "str_exn (OSError c p) = strerror c @ '': '' @ [CHR 0x27] @ p @ [CHR 0x27]"
| "str_exn (ValueError m) = m"

text \<open>
  What the process is run with: the platform (\<^verbatim>\<open>os.name == 'nt'\<close>), \<^verbatim>\<open>os.path.abspath\<close>
  and the digest \<^verbatim>\<open>hashlib.md5(...).hexdigest()\<close> of a byte string. The last two are
  library functions; nothing is assumed about them.
\<close>

record os_env =
  is_nt :: bool
  abspath :: "string \<Rightarrow> string"
  md5 :: "byte list \<Rightarrow> string"

definition sep :: "os_env \<Rightarrow> char" where
  "sep e = (if is_nt e then CHR 0x5C else CHR ''/'')"

text \<open>Following links, as \<^verbatim>\<open>os.stat\<close>, \<^verbatim>\<open>open\<close>, \<^verbatim>\<open>Path.is_file\<close> and \<^verbatim>\<open>Path.is_dir\<close> do.\<close>

fun resolve :: "fsnode \<Rightarrow> fsnode option" where
  "resolve (Symlink n None) = None"
| "resolve (Symlink n (Some t)) = resolve t"
| "resolve (File n d s r) = Some (File n d s r)"
| "resolve (Dir n l cs) = Some (Dir n l cs)"

text \<open>\<^verbatim>\<open>os.stat(path).st_size\<close> and \<^verbatim>\<open>os.path.getsize(path)\<close>.\<close>

definition os_stat_size :: "string \<Rightarrow> fsnode \<Rightarrow> exn + nat" where
  "os_stat_size p node =
     (case resolve node of
        None \<Rightarrow> Inl (OSError ENOENT p)
      | Some (File n d None r) \<Rightarrow> Inr (length d)
      | Some (File n d (Some c) r) \<Rightarrow> Inl (OSError c p)
      | Some (Dir n l cs) \<Rightarrow> Inr 0
      | Some (Symlink n t) \<Rightarrow> Inl (OSError ELOOP p))"

text \<open>\<^verbatim>\<open>open(path, "rb")\<close>: the bytes the handle will deliver.\<close>

definition os_open :: "string \<Rightarrow> fsnode \<Rightarrow> exn + byte list" where
  "os_open p node =
     (case resolve node of
        None \<Rightarrow> Inl (OSError ENOENT p)
      | Some (File n d s None) \<Rightarrow> Inr d
      | Some (File n d s (Some c)) \<Rightarrow> Inl (OSError c p)
      | Some (Dir n l cs) \<Rightarrow> Inl (OSError EISDIR p)
      | Some (Symlink n t) \<Rightarrow> Inl (OSError ELOOP p))"

text \<open>\<^verbatim>\<open>Path.is_file()\<close> and \<^verbatim>\<open>Path.is_dir()\<close> of the driver; \<^verbatim>\<open>DirEntry.is_dir(follow_symlinks=False)\<close>
  of the scanner.\<close>

definition is_file :: "fsnode \<Rightarrow> bool" where
  "is_file node = (case resolve node of Some (File n d s r) \<Rightarrow> True | _ \<Rightarrow> False)"

definition is_dir :: "fsnode \<Rightarrow> bool" where
  "is_dir node = (case resolve node of Some (Dir n l cs) \<Rightarrow> True | _ \<Rightarrow> False)"

fun is_dir_nofollow :: "fsnode \<Rightarrow> bool" where
  "is_dir_nofollow (Dir n l cs) = True"
| "is_dir_nofollow (File n d s r) = False"
| "is_dir_nofollow (Symlink n t) = False"

text \<open>\<^verbatim>\<open>os.path.islink\<close>.\<close>

fun is_link :: "fsnode \<Rightarrow> bool" where
  "is_link (Symlink n t) = True"
| "is_link (Dir n l cs) = False"
| "is_link (File n d s r) = False"

section \<open>Path normalizer\<close>

text \<open>
  The extended-length prefix \<^verbatim>\<open>\\?\\<close> (Python literal \<^verbatim>\<open>'\\\\?\\'\<close>) and the three places
  that apply it, each written inline in the source:
  \<^verbatim>\<open>get_file_hash\<close> and \<^verbatim>\<open>get_file_info\<close> (same text),
  \<^verbatim>\<open>calculate_folder_size\<close>, and \<^verbatim>\<open>safe_walk\<close>.
\<close>

definition ext_prefix :: string where
  "ext_prefix = [CHR 0x5C, CHR 0x5C, CHR ''?'', CHR 0x5C]"

definition startswith :: "string \<Rightarrow> string \<Rightarrow> bool" where
  "startswith s p = (take (length p) s = p)"

definition long_path_file :: "os_env \<Rightarrow> string \<Rightarrow> string" where
  "long_path_file e path_str =
     (if is_nt e \<and> length path_str > 260 \<and> \<not> startswith path_str ext_prefix
      then ext_prefix @ abspath e path_str else path_str)"

definition long_path_folder :: "os_env \<Rightarrow> string \<Rightarrow> string" where
  "long_path_folder e file_path =
     (if is_nt e \<and> length file_path > 260
      then ext_prefix @ abspath e file_path else file_path)"

definition long_path_walk :: "os_env \<Rightarrow> string \<Rightarrow> string" where
  "long_path_walk e path =
     (if is_nt e \<and> length path > 200
      then (if \<not> startswith path ext_prefix then ext_prefix @ abspath e path else path)
      else path)"

section \<open>Content hasher\<close>

text \<open>
  \<^verbatim>\<open>iter(lambda: f.read(4096), b"")\<close>: the chunks read until the first empty one. The hash
  object is the bytes fed to it so far; \<^verbatim>\<open>update\<close> appends, \<^verbatim>\<open>hexdigest\<close> applies the
  digest to them.
\<close>

function read_chunks :: "byte list \<Rightarrow> byte list list" where
  "read_chunks bs = (if bs = [] then [] else take 4096 bs # read_chunks (drop 4096 bs))"
  by pat_completeness auto
termination
  by (relation "measure length") auto

declare read_chunks.simps [simp del]

definition md5_update_all :: "byte list \<Rightarrow> byte list list \<Rightarrow> byte list" where
  "md5_update_all acc chunks = foldl (\<lambda>h chunk. h @ chunk) acc chunks"

text \<open>The bytes \<^verbatim>\<open>get_file_hash\<close> feeds to the hash object for an opened file of contents
  \<open>d\<close> and size \<open>sz\<close>.\<close>

definition hashed_bytes :: "bool \<Rightarrow> nat \<Rightarrow> byte list \<Rightarrow> byte list" where
  "hashed_bytes quick sz d =
     (if quick \<and> sz > 1024 * 1024 then md5_update_all [] [take (1024 * 1024) d]
      else md5_update_all [] (read_chunks d))"

text \<open>The body of the \<^verbatim>\<open>try\<close> of \<^verbatim>\<open>get_file_hash\<close>, and the function with its bare
  \<^verbatim>\<open>except: return None\<close>.\<close>

definition get_file_hash_try :: "os_env \<Rightarrow> string \<Rightarrow> fsnode \<Rightarrow> bool \<Rightarrow> exn + string" where
  "get_file_hash_try e file_path node quick =
     (let path_str = long_path_file e file_path in
      case os_open path_str node of
        Inl x \<Rightarrow> Inl x
      | Inr d \<Rightarrow>
          (if quick then
             (case os_stat_size path_str node of
                Inl x \<Rightarrow> Inl x
              | Inr sz \<Rightarrow> Inr (md5 e (hashed_bytes True sz d)))
           else Inr (md5 e (hashed_bytes False 0 d))))"

definition get_file_hash :: "os_env \<Rightarrow> string \<Rightarrow> fsnode \<Rightarrow> bool \<Rightarrow> string option" where
  "get_file_hash e file_path node quick =
     (case get_file_hash_try e file_path node quick of
        Inl x \<Rightarrow> None
      | Inr h \<Rightarrow> Some h)"

section \<open>Paths\<close>

text \<open>
  Paths are the strings the source passes around (\<^verbatim>\<open>str(path)\<close>, \<^verbatim>\<open>item.path\<close>).
  \<^verbatim>\<open>os.path.join\<close> with a plain entry name, and the \<^verbatim>\<open>pathlib\<close> accessors
  \<^verbatim>\<open>name\<close>, \<^verbatim>\<open>parent\<close>, \<^verbatim>\<open>suffix\<close>, \<^verbatim>\<open>parts\<close> and \<^verbatim>\<open>relative_to\<close> on a normalised path.
\<close>

definition join :: "os_env \<Rightarrow> string \<Rightarrow> string \<Rightarrow> string" where
  "join e a b = (if a = [] \<or> last a = sep e then a @ b else a @ [sep e] @ b)"

definition path_name :: "os_env \<Rightarrow> string \<Rightarrow> string" where
  "path_name e p = rev (takeWhile (\<lambda>c. c \<noteq> sep e) (rev p))"

definition path_parent :: "os_env \<Rightarrow> string \<Rightarrow> string" where
  "path_parent e p =
     (let d = rev (drop 1 (dropWhile (\<lambda>c. c \<noteq> sep e) (rev p)))
      in if d \<noteq> [] then d else if sep e \<in> set p then [sep e] else ''.'')"

definition path_suffix :: "string \<Rightarrow> string" where
  "path_suffix name =
     (if CHR ''.'' \<notin> set name then []
      else let i = length name - length (takeWhile (\<lambda>c. c \<noteq> CHR ''.'') (rev name)) - 1
           in if 0 < i \<and> i < length name - 1 then drop i name else [])"

definition lower_char :: "char \<Rightarrow> char" where
  "lower_char c =
     (if CHR ''A'' \<le> c \<and> c \<le> CHR ''Z'' then char_of (of_char c + (32 :: nat)) else c)"

definition extension_of :: "os_env \<Rightarrow> string \<Rightarrow> string" where
  "extension_of e p =
     (let sfx = path_suffix (path_name e p)
      in if sfx \<noteq> [] then map lower_char sfx else ''no_extension'')"

fun split_sep :: "char \<Rightarrow> string \<Rightarrow> string list" where
  "split_sep c [] = [[]]"
| "split_sep c (x # xs) =
     (if x = c then [] # split_sep c xs
      else (case split_sep c xs of w # ws \<Rightarrow> (x # w) # ws | [] \<Rightarrow> [[x]]))"

definition path_parts :: "os_env \<Rightarrow> string \<Rightarrow> string list" where
  "path_parts e p =
     (if p \<noteq> [] \<and> hd p = sep e then [[sep e]] else []) @
     filter (\<lambda>w. w \<noteq> [] \<and> w \<noteq> ''.'') (split_sep (sep e) p)"

definition relative_to :: "os_env \<Rightarrow> string \<Rightarrow> string \<Rightarrow> exn + string list" where
  "relative_to e p other =
     (if prefix (path_parts e other) (path_parts e p)
      then Inr (drop (length (path_parts e other)) (path_parts e p))
      else Inl (ValueError ([CHR 0x27] @ p @ [CHR 0x27] @ '' is not in the subpath of '' @
                            [CHR 0x27] @ other @ [CHR 0x27])))"

section \<open>The analyzer's state\<close>

text \<open>
  The records the analyzer collects. \<^verbatim>\<open>size_readable\<close> (rendered by the \<^verbatim>\<open>humanize\<close>
  package) and the two time stamps of a file record are presentation data and are left out.
  Both dictionaries are \<^verbatim>\<open>defaultdict\<close>s, which keep their keys in insertion order: they
  are association lists, a new key going to the end.
\<close>

record file_info =
  fi_path :: string
  fi_name :: string
  fi_parent_folder :: string
  fi_extension :: string
  fi_size_bytes :: nat
  fi_depth :: nat
  fi_hash :: "string option"

record folder_info =
  fo_path :: string
  fo_name :: string
  fo_parent_folder :: string
  fo_size_bytes :: nat
  fo_file_count :: nat
  fo_subfolder_count :: nat
  fo_depth :: nat
  fo_total_items :: nat

record dup_member =
  m_path :: string
  m_name :: string
  m_size :: nat

record type_summary =
  ts_count :: nat
  ts_size :: nat

type_synonym dup_index = "(string \<times> dup_member list) list"

type_synonym types_index = "(string \<times> type_summary) list"

record analyzer =
  files_data :: "file_info list"
  folders_data :: "folder_info list"
  file_types_summary :: types_index
  duplicates :: dup_index
  errors :: "string list"

definition init_analyzer :: analyzer where
  "init_analyzer =
     \<lparr>files_data = [], folders_data = [], file_types_summary = [], duplicates = [],
      errors = []\<rparr>"

text \<open>\<^verbatim>\<open>self.duplicates[file_hash].append(member)\<close>.\<close>

fun dup_append :: "dup_index \<Rightarrow> string \<Rightarrow> dup_member \<Rightarrow> dup_index" where
  "dup_append [] h m = [(h, [m])]"
| "dup_append ((k, ms) # rest) h m =
     (if k = h then (k, ms @ [m]) # rest else (k, ms) # dup_append rest h m)"

text \<open>\<^verbatim>\<open>self.file_types_summary[ext]['count'] += 1\<close> followed by
  \<^verbatim>\<open>self.file_types_summary[ext]['size'] += size_bytes\<close>; the default entry is
  \<^verbatim>\<open>{'count': 0, 'size': 0}\<close>.\<close>

fun summary_add :: "types_index \<Rightarrow> string \<Rightarrow> nat \<Rightarrow> types_index" where
  "summary_add [] ext sz = [(ext, \<lparr>ts_count = 1, ts_size = sz\<rparr>)]"
| "summary_add ((k, v) # rest) ext sz =
     (if k = ext then (k, \<lparr>ts_count = ts_count v + 1, ts_size = ts_size v + sz\<rparr>) # rest
      else (k, v) # summary_add rest ext sz)"

definition log_error :: "string \<Rightarrow> analyzer \<Rightarrow> analyzer" where
  "log_error msg st = st\<lparr>errors := errors st @ [msg]\<rparr>"

section \<open>File records\<close>

text \<open>
  \<^verbatim>\<open>get_file_info\<close>: the record of one file, registered in the duplicate index when it is
  smaller than 100 MiB and its digest is available (\<^verbatim>\<open>if file_hash:\<close> is false for
  \<^verbatim>\<open>None\<close> and for the empty string). A failing \<^verbatim>\<open>os.stat\<close> is logged and gives
  \<^verbatim>\<open>None\<close>; a failing \<^verbatim>\<open>relative_to\<close> gives depth 0.
\<close>

definition get_file_info ::
  "os_env \<Rightarrow> string \<Rightarrow> string \<Rightarrow> fsnode \<Rightarrow> analyzer \<Rightarrow> file_info option \<times> analyzer" where
  "get_file_info e root_path file_path node st =
     (let path_str = long_path_file e file_path in
      case os_stat_size path_str node of
        Inl x \<Rightarrow>
          (None, log_error (''Error reading file '' @ file_path @ '': '' @ str_exn x) st)
      | Inr st_size \<Rightarrow>
          (let depth = (case relative_to e file_path root_path of
                          Inl x \<Rightarrow> 0
                        | Inr rel_path \<Rightarrow> length rel_path);
               info = \<lparr>fi_path = file_path,
                       fi_name = path_name e file_path,
                       fi_parent_folder = path_parent e file_path,
                       fi_extension = extension_of e file_path,
                       fi_size_bytes = st_size,
                       fi_depth = depth,
                       fi_hash = None\<rparr>
           in if st_size < 100 * 1024 * 1024 then
                (case get_file_hash e file_path node True of
                   None \<Rightarrow> (Some info, st)
                 | Some file_hash \<Rightarrow>
                     if file_hash = [] then (Some info, st)
                     else (Some (info\<lparr>fi_hash := Some file_hash\<rparr>),
                           st\<lparr>duplicates :=
                                dup_append (duplicates st) file_hash
                                  \<lparr>m_path = file_path,
                                   m_name = path_name e file_path,
                                   m_size = st_size\<rparr>\<rparr>))
              else (Some info, st)))"

section \<open>Aggregator\<close>

text \<open>
  \<^verbatim>\<open>os.walk(top)\<close> with its defaults (top-down, \<^verbatim>\<open>onerror=None\<close>,
  \<^verbatim>\<open>followlinks=False\<close>): a directory that cannot be listed contributes nothing and no
  error; an entry counts as a directory when \<^verbatim>\<open>entry.is_dir()\<close> holds with links followed;
  a linked directory is listed among \<^verbatim>\<open>dirs\<close> and not entered. The triples carry the
  entries themselves where the source carries their names.
\<close>

type_synonym walk_triple = "string \<times> fsnode list \<times> fsnode list"

fun walk_dir :: "os_env \<Rightarrow> string \<Rightarrow> fsnode \<Rightarrow> walk_triple list" where
  "walk_dir e tp (Dir n None cs) =
     (tp, filter is_dir cs, filter (\<lambda>c. \<not> is_dir c) cs) #
     concat (map (\<lambda>c. if \<not> is_link c then walk_dir e (join e tp (node_name c)) c else [])
               (filter is_dir cs))"
| "walk_dir e tp (Dir n (Some x) cs) = []"
| "walk_dir e tp (File n d s r) = []"
| "walk_dir e tp (Symlink n t) = []"

definition os_walk :: "os_env \<Rightarrow> string \<Rightarrow> fsnode \<Rightarrow> walk_triple list" where
  "os_walk e tp node = (case resolve node of None \<Rightarrow> [] | Some d \<Rightarrow> walk_dir e tp d)"

text \<open>
  \<^verbatim>\<open>calculate_folder_size\<close>. The inner \<^verbatim>\<open>try\<close> holds the join, the long-path rewrite and
  \<^verbatim>\<open>os.path.getsize\<close>; its bare \<^verbatim>\<open>except: pass\<close> drops the file's size, the file having
  been counted before. The accumulator is (\<^verbatim>\<open>total_size\<close>, \<^verbatim>\<open>file_count\<close>,
  \<^verbatim>\<open>subfolder_count\<close>). \<^verbatim>\<open>os.walk\<close> itself raises nothing, so the outer handler, which
  would log to \<^verbatim>\<open>self.errors\<close>, is never entered and the state is returned as it came.
\<close>

definition folder_file_size :: "os_env \<Rightarrow> string \<Rightarrow> fsnode \<Rightarrow> exn + nat" where
  "folder_file_size e root file =
     (let file_path = long_path_folder e (join e root (node_name file))
      in os_stat_size file_path file)"

definition count_file :: "os_env \<Rightarrow> string \<Rightarrow> nat \<times> nat \<Rightarrow> fsnode \<Rightarrow> nat \<times> nat" where
  "count_file e root acc file =
     (case acc of (total_size, file_count) \<Rightarrow>
        (case folder_file_size e root file of
           Inl x \<Rightarrow> (total_size, file_count + 1)
         | Inr sz \<Rightarrow> (total_size + sz, file_count + 1)))"

definition count_triple :: "os_env \<Rightarrow> nat \<times> nat \<times> nat \<Rightarrow> walk_triple \<Rightarrow> nat \<times> nat \<times> nat" where
  "count_triple e acc triple =
     (case acc of (total_size, file_count, subfolder_count) \<Rightarrow>
        (case triple of (root, dirs, files) \<Rightarrow>
           (case foldl (count_file e root) (total_size, file_count) files of
              (total_size', file_count') \<Rightarrow>
                (total_size', file_count', subfolder_count + length dirs))))"

definition calculate_folder_size ::
  "os_env \<Rightarrow> string \<Rightarrow> fsnode \<Rightarrow> analyzer \<Rightarrow> (nat \<times> nat \<times> nat) \<times> analyzer" where
  "calculate_folder_size e folder_path node st =
     (foldl (count_triple e) (0, 0, 0) (os_walk e folder_path node), st)"

section \<open>Entry scanner\<close>

text \<open>
  \<^verbatim>\<open>safe_walk\<close> is a generator whose consumer also writes to \<^verbatim>\<open>self.errors\<close>. Its run is
  the list of what it does, in order: an entry handed to the consumer (the path, and the
  node the path was listed for), or a message appended to \<^verbatim>\<open>self.errors\<close>. The generator
  reads nothing the consumer writes, so the list does not depend on the consumer.
  \<^verbatim>\<open>os.scandir\<close> follows a link given as its argument. The handler around the recursive
  \<^verbatim>\<open>yield from\<close> catches nothing: the inner generator handles every exception of its own.
\<close>

datatype event = Yield string fsnode | Failure string

definition os_scandir :: "string \<Rightarrow> fsnode \<Rightarrow> exn + fsnode list" where
  "os_scandir p node =
     (case resolve node of
        None \<Rightarrow> Inl (OSError ENOENT p)
      | Some (Dir n None cs) \<Rightarrow> Inr cs
      | Some (Dir n (Some c) cs) \<Rightarrow> Inl (OSError c p)
      | Some (File n d s r) \<Rightarrow> Inl (OSError ENOTDIR p)
      | Some (Symlink n t) \<Rightarrow> Inl (OSError ELOOP p))"

function safe_walk :: "os_env \<Rightarrow> string \<Rightarrow> fsnode \<Rightarrow> event list" where
  "safe_walk e path node =
     (let path' = long_path_walk e path in
      case os_scandir path' node of
        Inl x \<Rightarrow> [Failure (''Error scanning: '' @ path' @ '' - '' @ str_exn x)]
      | Inr items \<Rightarrow>
          concat (map (\<lambda>item.
                    Yield (join e path' (node_name item)) item #
                    (if is_dir_nofollow item
                     then safe_walk e (join e path' (node_name item)) item else []))
                  items))"
  by pat_completeness auto
termination
proof (relation "measure (\<lambda>(e, path, node). size node)")
  show "wf (measure (\<lambda>(e, path, node). size node))" by simp
next
  fix e :: os_env and path :: string and node :: fsnode and path' :: string
    and items :: "fsnode list" and item :: fsnode
  assume scan: "os_scandir path' node = Inr items" and mem: "item \<in> set items"
  have res: "resolve t = Some r \<Longrightarrow> size r \<le> size t" for t r
    by (induction t arbitrary: r rule: resolve.induct) auto
  from scan obtain n where "resolve node = Some (Dir n None items)"
    by (auto simp: os_scandir_def split: option.splits fsnode.splits)
  then have "size (Dir n None items) \<le> size node" by (rule res)
  moreover from mem have "size item < size (Dir n None items)"
    by (induction items) auto
  ultimately show "((e, join e path' (node_name item), item), (e, path, node))
      \<in> measure (\<lambda>(e, path, node). size node)" by simp
qed

declare safe_walk.simps [simp del]

section \<open>Driver\<close>

text \<open>
  The body of the loop of \<^verbatim>\<open>analyze_directory\<close> for one yielded entry. \<^verbatim>\<open>Path.is_file\<close>
  and \<^verbatim>\<open>Path.is_dir\<close> classify a listed entry without raising here, so the handlers
  \<^verbatim>\<open>"Error processing item"\<close> and \<^verbatim>\<open>"Critical error during scan"\<close> have nothing to catch;
  the handler of the folder branch catches a failing \<^verbatim>\<open>relative_to\<close>. Progress printing
  touches no collection.
\<close>

definition add_file :: "file_info \<Rightarrow> analyzer \<Rightarrow> analyzer" where
  "add_file info st =
     st\<lparr>files_data := files_data st @ [info],
        file_types_summary :=
          summary_add (file_types_summary st) (fi_extension info) (fi_size_bytes info)\<rparr>"

definition folder_record ::
  "os_env \<Rightarrow> string \<Rightarrow> nat \<times> nat \<times> nat \<Rightarrow> nat \<Rightarrow> folder_info" where
  "folder_record e p agg depth =
     (case agg of (size_bytes, files_in_folder, subfolders_in_folder) \<Rightarrow>
        \<lparr>fo_path = p,
         fo_name = path_name e p,
         fo_parent_folder = path_parent e p,
         fo_size_bytes = size_bytes,
         fo_file_count = files_in_folder,
         fo_subfolder_count = subfolders_in_folder,
         fo_depth = depth,
         fo_total_items = files_in_folder + subfolders_in_folder\<rparr>)"

definition add_folder :: "folder_info \<Rightarrow> analyzer \<Rightarrow> analyzer" where
  "add_folder rec st = st\<lparr>folders_data := folders_data st @ [rec]\<rparr>"

definition process_item ::
  "os_env \<Rightarrow> string \<Rightarrow> string \<Rightarrow> fsnode \<Rightarrow> analyzer \<Rightarrow> analyzer" where
  "process_item e root_path item_path node st =
     (if is_file node then
        (case get_file_info e root_path item_path node st of
           (None, st') \<Rightarrow> st'
         | (Some info, st') \<Rightarrow> add_file info st')
      else if is_dir node then
        (case calculate_folder_size e item_path node st of
           (agg, st') \<Rightarrow>
             (case (if item_path \<noteq> root_path then relative_to e item_path root_path
                    else Inr []) of
                Inl x \<Rightarrow>
                  log_error (''Error processing folder '' @ item_path @ '': '' @ str_exn x) st'
              | Inr rel_path \<Rightarrow>
                  add_folder
                    (folder_record e item_path agg
                       (if rel_path \<noteq> [] then length rel_path else 0)) st'))
      else st)"

definition handle_event :: "os_env \<Rightarrow> string \<Rightarrow> analyzer \<Rightarrow> event \<Rightarrow> analyzer" where
  "handle_event e root_path st ev =
     (case ev of
        Yield item_path node \<Rightarrow> process_item e root_path item_path node st
      | Failure msg \<Rightarrow> log_error msg st)"

definition add_root_folder :: "os_env \<Rightarrow> string \<Rightarrow> fsnode \<Rightarrow> analyzer \<Rightarrow> analyzer" where
  "add_root_folder e root_path root st =
     (if \<not> list_ex (\<lambda>f. fo_path f = root_path) (folders_data st) then
        (case calculate_folder_size e root_path root st of
           (agg, st') \<Rightarrow> add_folder (folder_record e root_path agg 0) st')
      else st)"

definition analyze_directory :: "os_env \<Rightarrow> string \<Rightarrow> fsnode \<Rightarrow> analyzer" where
  "analyze_directory e root_path root =
     add_root_folder e root_path root
       (foldl (handle_event e root_path) init_analyzer (safe_walk e root_path root))"

section \<open>Duplicate index at report time\<close>

text \<open>
  The part of \<^verbatim>\<open>create_duplicates_sheet\<close> that decides which groups are written and in
  which order: the groups with more than one member, sorted by the size of the member at
  index 0 of the stored list, largest first (\<^verbatim>\<open>sorted(..., reverse=True)\<close> keeps the stored
  order of groups with equal keys), each group's members sorted by path, and the loop left
  after 1000 groups. A group passing the filter has a member at index 0.
\<close>

definition duplicate_groups :: "dup_index \<Rightarrow> dup_index" where
  "duplicate_groups idx = filter (\<lambda>(h, files). length files > 1) idx"

definition first_size :: "string \<times> dup_member list \<Rightarrow> nat" where
  "first_size g = (case snd g of [] \<Rightarrow> 0 | f # fs \<Rightarrow> m_size f)"

definition sorted_desc :: "('a \<Rightarrow> nat) \<Rightarrow> 'a list \<Rightarrow> 'a list" where
  "sorted_desc key xs = rev (sort_key key (rev xs))"

definition create_duplicates_sheet :: "dup_index \<Rightarrow> dup_index" where
  "create_duplicates_sheet idx =
     map (\<lambda>(hash_val, files). (hash_val, sort_key m_path files))
       (take 1000 (sorted_desc first_size (duplicate_groups idx)))"

section \<open>Reference definitions\<close>

text \<open>
  The hashing policy in the words of the design: a file at or below 1 MiB is hashed over
  its full contents, a larger one over its leading 1 MiB.
\<close>

definition policy_bytes :: "byte list \<Rightarrow> byte list" where
  "policy_bytes d = (if length d \<le> 1048576 then d else take 1048576 d)"

text \<open>
  Two environments for closed examples. The stand-in digest is injective and never empty,
  so no example rests on a collision; \<^verbatim>\<open>os.path.abspath\<close> leaves the absolute, normalised
  paths of the examples as they are.
\<close>

definition plain_digest :: "byte list \<Rightarrow> string" where
  "plain_digest bs = CHR ''#'' # map (\<lambda>b. char_of (unat b)) bs"

definition posix_env :: os_env where
  "posix_env = \<lparr>is_nt = False, abspath = (\<lambda>p. p), md5 = plain_digest\<rparr>"

definition nt_env :: os_env where
  "nt_env = \<lparr>is_nt = True, abspath = (\<lambda>p. p), md5 = plain_digest\<rparr>"

text \<open>Windows paths for closed examples: 303 and 201 characters, neither carrying the
  extended-length prefix.\<close>

definition unc_300 :: string where
  "unc_300 = ''C:'' @ [CHR 0x5C] @ replicate 300 (CHR ''a'')"

definition unc_201 :: string where
  "unc_201 = ''C:'' @ [CHR 0x5C] @ replicate 198 (CHR ''a'')"

text \<open>
  The duplicate index after a sequence of registrations (digest, member), as
  \<^verbatim>\<open>get_file_info\<close> makes them one by one, and the members registered under one digest, in
  the order of their registration.
\<close>

definition dup_build :: "(string \<times> dup_member) list \<Rightarrow> dup_index" where
  "dup_build ops = foldl (\<lambda>idx (h, m). dup_append idx h m) [] ops"

definition inserted_under :: "(string \<times> dup_member) list \<Rightarrow> string \<Rightarrow> dup_member list" where
  "inserted_under ops h = map snd (filter (\<lambda>(k, m). k = h) ops)"

text \<open>
  Five registrations for closed examples. The two members under \<^verbatim>\<open>d1\<close> differ in size, as
  files above 1 MiB that share their first 1 MiB do; the larger is registered first.
\<close>

definition ops_example :: "(string \<times> dup_member) list" where
  "ops_example =
     [(''d1'', \<lparr>m_path = ''/r/z.bin'', m_name = ''z.bin'', m_size = 3145728\<rparr>),
      (''d2'', \<lparr>m_path = ''/r/m.bin'', m_name = ''m.bin'', m_size = 2621440\<rparr>),
      (''d1'', \<lparr>m_path = ''/r/a.bin'', m_name = ''a.bin'', m_size = 2097152\<rparr>),
      (''d3'', \<lparr>m_path = ''/r/u.bin'', m_name = ''u.bin'', m_size = 5\<rparr>),
      (''d2'', \<lparr>m_path = ''/r/c.bin'', m_name = ''c.bin'', m_size = 2621440\<rparr>)]"

text \<open>
  The aggregate of a directory in the words of the design: the bytes, the files and the
  subfolders of everything below it. Each function gives what an entry adds to the
  aggregate of the directory that holds it, apart from the entry's own count as a
  subfolder: a file adds its size when it can be read and counts as one file; a directory
  adds what is below it, nothing when it cannot be listed; a link is not entered, so it
  adds the size of the file it leads to and counts as a file unless it leads to a directory.
\<close>

fun total_bytes :: "fsnode \<Rightarrow> nat" where
  "total_bytes (File n d s r) = (if s = None then length d else 0)"
| "total_bytes (Dir n l cs) = (if l = None then sum_list (map total_bytes cs) else 0)"
| "total_bytes (Symlink n t) =
     (case resolve (Symlink n t) of Some (File n' d None r) \<Rightarrow> length d | _ \<Rightarrow> 0)"

fun total_files :: "fsnode \<Rightarrow> nat" where
  "total_files (File n d s r) = 1"
| "total_files (Dir n l cs) = (if l = None then sum_list (map total_files cs) else 0)"
| "total_files (Symlink n t) = (if is_dir (Symlink n t) then 0 else 1)"

fun total_subfolders :: "fsnode \<Rightarrow> nat" where
  "total_subfolders (File n d s r) = 0"
| "total_subfolders (Dir n l cs) =
     (if l = None
      then sum_list (map (\<lambda>c. (if is_dir c then 1 else 0) + total_subfolders c) cs) else 0)"
| "total_subfolders (Symlink n t) = 0"

definition aggregate :: "fsnode \<Rightarrow> nat \<times> nat \<times> nat" where
  "aggregate node =
     (case resolve node of
        Some (Dir n l cs) \<Rightarrow>
          (total_bytes (Dir n l cs), total_files (Dir n l cs), total_subfolders (Dir n l cs))
      | _ \<Rightarrow> (0, 0, 0))"


text \<open>
  A tree for closed examples: a readable file, a subfolder with a readable and an
  unreadable file, a folder that cannot be listed, a link to a folder and a dangling link.
\<close>

definition tree_example :: fsnode where
  "tree_example =
     Dir ''r'' None
       [File ''a.txt'' [1, 2, 3] None None,
        Dir ''sub'' None
          [File ''b.txt'' [1, 2, 3] None None,
           File ''c.txt'' [9, 9] (Some EACCES) None],
        Dir ''locked'' (Some EACCES) [File ''x.txt'' [7] None None],
        Symlink ''lnk'' (Some (Dir ''sub'' None [File ''b.txt'' [1, 2, 3] None None])),
        Symlink ''dangling'' None]"

text \<open>
  What happened in a run of the scanner: the entries handed to the consumer, and the
  messages appended to the error list.
\<close>

fun yields :: "event list \<Rightarrow> (string \<times> fsnode) list" where
  "yields [] = []"
| "yields (Yield p x # evs) = (p, x) # yields evs"
| "yields (Failure m # evs) = yields evs"

fun failures :: "event list \<Rightarrow> string list" where
  "failures [] = []"
| "failures (Yield p x # evs) = failures evs"
| "failures (Failure m # evs) = m # failures evs"

text \<open>One turn of the loop of \<^verbatim>\<open>safe_walk\<close> over the listing of the directory at \<open>path'\<close>.\<close>

definition walk_item :: "os_env \<Rightarrow> string \<Rightarrow> fsnode \<Rightarrow> event list" where
  "walk_item e path' item =
     Yield (join e path' (node_name item)) item #
     (if is_dir_nofollow item then safe_walk e (join e path' (node_name item)) item else [])"

text \<open>
  The scan order in the words of the design: an entry, then, if it is a directory, all
  that is below it, then the entry's next sibling. Nothing is below a directory that
  cannot be listed, a file or a link. The entries reachable from a directory are its
  entries and the entries reachable from those.
\<close>

fun preorder :: "fsnode \<Rightarrow> fsnode list" where
  "preorder (Dir n l cs) = (if l = None then concat (map (\<lambda>c. c # preorder c) cs) else [])"
| "preorder (File n d s r) = []"
| "preorder (Symlink n t) = []"

definition scan_order :: "fsnode \<Rightarrow> fsnode list" where
  "scan_order root = (case resolve root of None \<Rightarrow> [] | Some d \<Rightarrow> preorder d)"

inductive reachable :: "fsnode \<Rightarrow> fsnode \<Rightarrow> bool" where
  child: "c \<in> set cs \<Longrightarrow> reachable (Dir n None cs) c"
| below: "c \<in> set cs \<Longrightarrow> reachable c x \<Longrightarrow> reachable (Dir n None cs) x"

text \<open>File-system names: within a directory no two entries share a name, and a name is
  not empty and does not contain the separator.\<close>

fun wf_names :: "os_env \<Rightarrow> fsnode \<Rightarrow> bool" where
  "wf_names e (Dir n l cs) =
     (distinct (map node_name cs) \<and>
      (\<forall>c \<in> set cs. node_name c \<noteq> [] \<and> sep e \<notin> set (node_name c) \<and> wf_names e c))"
| "wf_names e (File n d s r) = True"
| "wf_names e (Symlink n t) = True"

text \<open>A path that is \<open>q\<close> itself or \<open>q\<close> followed by a separator and more.\<close>

definition extends_path :: "os_env \<Rightarrow> string \<Rightarrow> string \<Rightarrow> bool" where
  "extends_path e q s = (\<exists>r. s = q @ r \<and> (r = [] \<or> hd r = sep e))"

text \<open>
  The record \<^verbatim>\<open>get_file_info\<close> returns for an entry does not depend on what the analyzer
  has collected so far; neither does what one event adds to the file collection.
\<close>

definition file_record :: "os_env \<Rightarrow> string \<Rightarrow> string \<Rightarrow> fsnode \<Rightarrow> file_info option" where
  "file_record e root_path file_path node =
     fst (get_file_info e root_path file_path node init_analyzer)"

definition event_files :: "os_env \<Rightarrow> string \<Rightarrow> event \<Rightarrow> file_info list" where
  "event_files e root_path ev =
     (case ev of
        Yield item_path node \<Rightarrow>
          (if is_file node
           then (case file_record e root_path item_path node of None \<Rightarrow> [] | Some info \<Rightarrow> [info])
           else [])
      | Failure msg \<Rightarrow> [])"

text \<open>The file-type summary in the words of the design: per extension, the number of the
  file records with that extension and the sum of their sizes.\<close>

definition summary_of :: "file_info list \<Rightarrow> string \<Rightarrow> type_summary option" where
  "summary_of infos ext =
     (let same = filter (\<lambda>i. fi_extension i = ext) infos
      in if same = [] then None
         else Some \<lparr>ts_count = length same, ts_size = sum_list (map fi_size_bytes same)\<rparr>)"

text \<open>What one event adds to the folder collection: the record of a directory, with the
  aggregate of its subtree, unless its path cannot be taken relative to the root.\<close>

definition event_folders :: "os_env \<Rightarrow> string \<Rightarrow> event \<Rightarrow> folder_info list" where
  "event_folders e root_path ev =
     (case ev of
        Yield item_path node \<Rightarrow>
          (if is_dir node then
             (case (if item_path \<noteq> root_path then relative_to e item_path root_path
                    else Inr []) of
                Inl x \<Rightarrow> []
              | Inr rel_path \<Rightarrow>
                  [folder_record e item_path (aggregate node)
                     (if rel_path \<noteq> [] then length rel_path else 0)])
           else [])
      | Failure msg \<Rightarrow> [])"

text \<open>Every member of the duplicate index belongs to a file record of the collection that
  carries the group's key as its digest, and is smaller than 100 MiB.\<close>

definition members_recorded :: "analyzer \<Rightarrow> bool" where
  "members_recorded st =
     (\<forall>h ms m. (h, ms) \<in> set (duplicates st) \<longrightarrow> m \<in> set ms \<longrightarrow>
        (\<exists>info \<in> set (files_data st).
           fi_hash info = Some h \<and> fi_path info = m_path m \<and> fi_name info = m_name m \<and>
           fi_size_bytes info = m_size m \<and> m_size m < 104857600))"

text \<open>The file-type summary agrees with the file collection.\<close>

definition summary_consistent :: "analyzer \<Rightarrow> bool" where
  "summary_consistent st =
     (distinct (map fst (file_types_summary st)) \<and>
      (\<forall>ext. map_of (file_types_summary st) ext = summary_of (files_data st) ext))"

text \<open>
  Trees for closed examples: two files with the same bytes, a file whose bytes cannot be
  read and a file that cannot be stat'ed; a file of exactly 100 MiB; and files above 1 MiB
  that share their first 1 MiB pairwise and differ in size.
\<close>

definition tree_dups :: fsnode where
  "tree_dups =
     Dir ''r'' None
       [File ''a.txt'' [1, 2, 3] None None,
        Dir ''sub'' None [File ''b.TXT'' [1, 2, 3] None None],
        File ''noext'' [4, 5] None (Some EACCES),
        File ''gone.txt'' [6] (Some ENOENT) None]"

definition big_file :: fsnode where
  "big_file = File ''big.bin'' (replicate 104857600 0) None None"

definition tree_big :: fsnode where
  "tree_big = Dir ''r'' None [big_file]"

definition tree_sizes :: fsnode where
  "tree_sizes =
     Dir ''r'' None
       [File ''z.bin'' (replicate 3145728 0) None None,
        File ''m.bin'' (replicate 2621440 1) None None,
        File ''a.bin'' (replicate 2097152 0) None None,
        File ''u.bin'' [1, 2, 3, 4, 5] None None,
        File ''c.bin'' (replicate 2621440 1) None None]"

section \<open>The example environments\<close>

lemma posix_env_simps [simp]:
  "is_nt posix_env = False" "abspath posix_env p = p" "md5 posix_env = plain_digest"
  by (simp_all add: posix_env_def)

lemma nt_env_simps [simp]:
  "is_nt nt_env = True" "abspath nt_env p = p" "md5 nt_env = plain_digest"
  by (simp_all add: nt_env_def)

section \<open>Properties of the content hasher\<close>

lemma concat_read_chunks: "concat (read_chunks bs) = bs"
proof (induction bs rule: read_chunks.induct)
  case (1 bs)
  show ?case
  proof (cases "bs = []")
    case True
    then show ?thesis by (simp add: read_chunks.simps)
  next
    case False
    with 1 have "concat (read_chunks (drop 4096 bs)) = drop 4096 bs" by simp
    with False show ?thesis by (subst read_chunks.simps) simp
  qed
qed

lemma md5_update_all_concat: "md5_update_all acc chunks = acc @ concat chunks"
  unfolding md5_update_all_def by (induction chunks arbitrary: acc) auto

lemma hashed_bytes_policy: "hashed_bytes True (length d) d = policy_bytes d"
  by (simp add: hashed_bytes_def policy_bytes_def md5_update_all_concat concat_read_chunks)

lemma get_file_hash_readable:
  assumes "resolve node = Some (File n d None None)"
  shows "get_file_hash e p node True = Some (md5 e (policy_bytes d))"
  using assms
  by (simp add: get_file_hash_def get_file_hash_try_def os_open_def os_stat_size_def
      Let_def hashed_bytes_policy)

lemma policy_bytes_eq_iff:
  assumes "take 1048576 d1 = take 1048576 d2"
  shows "policy_bytes d1 = policy_bytes d2 \<longleftrightarrow>
         d1 = d2 \<or> (1048576 \<le> length d1 \<and> 1048576 \<le> length d2)"
proof (cases "length d1 < 1048576")
  case True
  then have e1: "take 1048576 d1 = d1" by simp
  with assms have "take 1048576 d2 = d1" by simp
  then have "length (take 1048576 d2) = length d1" by simp
  with True have "length d2 = length d1" by (simp add: min_def split: if_splits)
  with True have "take 1048576 d2 = d2" by simp
  with assms e1 have "d1 = d2" by simp
  then show ?thesis by simp
next
  case ge1: False
  show ?thesis
  proof (cases "length d2 < 1048576")
    case True
    then have e2: "take 1048576 d2 = d2" by simp
    with assms have "take 1048576 d1 = d2" by simp
    then have "length (take 1048576 d1) = length d2" by simp
    with True ge1 show ?thesis by (simp add: min_def split: if_splits)
  next
    case False
    with ge1 assms show ?thesis by (auto simp: policy_bytes_def)
  qed
qed

text \<open>
  C2 (as amended). For every readable file, \<^verbatim>\<open>get_file_hash\<close> hashes the full contents when
  the size is at or below 1 MiB and exactly the leading 1 MiB when it is above. Two files
  with identical content receive identical digests. Two files that agree on their first
  1 MiB are hashed over the same bytes exactly when they are identical or both are at least
  1 MiB in size, and then receive identical digests: this includes a file of exactly 1 MiB
  and a larger one that extends it.
\<close>

theorem get_file_hash_policy:
  assumes "resolve f1 = Some (File n1 d1 None None)"
    and "resolve f2 = Some (File n2 d2 None None)"
  shows "get_file_hash e p1 f1 True = Some (md5 e (policy_bytes d1)) \<and>
         (d1 = d2 \<longrightarrow> get_file_hash e p1 f1 True = get_file_hash e p2 f2 True) \<and>
         (take 1048576 d1 = take 1048576 d2 \<longrightarrow>
            (policy_bytes d1 = policy_bytes d2 \<longleftrightarrow>
               d1 = d2 \<or> (1048576 \<le> length d1 \<and> 1048576 \<le> length d2)) \<and>
            (1048576 \<le> length d1 \<and> 1048576 \<le> length d2 \<longrightarrow>
               get_file_hash e p1 f1 True = get_file_hash e p2 f2 True))"
proof -
  have h1: "get_file_hash e p1 f1 True = Some (md5 e (policy_bytes d1))"
    using assms(1) by (rule get_file_hash_readable)
  have h2: "get_file_hash e p2 f2 True = Some (md5 e (policy_bytes d2))"
    using assms(2) by (rule get_file_hash_readable)
  show ?thesis
    using h1 h2 policy_bytes_eq_iff [of d1 d2] by auto
qed

text \<open>The policy at two files above 1 MiB that differ in their last byte only, the second
  reached through a link.\<close>

theorem get_file_hash_policy_witness:
  "resolve (File ''a.bin'' (replicate 1048577 0) None None) =
     Some (File ''a.bin'' (replicate 1048577 0) None None) \<and>
   resolve (Symlink ''b.lnk'' (Some (File ''b.bin'' (replicate 1048577 0 @ [1]) None None))) =
     Some (File ''b.bin'' (replicate 1048577 0 @ [1]) None None) \<and>
   take 1048576 (replicate 1048577 (0 :: byte)) = take 1048576 (replicate 1048577 0 @ [1]) \<and>
   replicate 1048577 (0 :: byte) \<noteq> replicate 1048577 0 @ [1] \<and>
   policy_bytes (replicate 1048577 0) = policy_bytes (replicate 1048577 0 @ [1]) \<and>
   get_file_hash posix_env ''/r/a.bin'' (File ''a.bin'' (replicate 1048577 0) None None) True =
     Some (plain_digest (replicate 1048576 0)) \<and>
   get_file_hash posix_env ''/r/a.bin'' (File ''a.bin'' (replicate 1048577 0) None None) True =
   get_file_hash posix_env ''/r/b.lnk''
     (Symlink ''b.lnk'' (Some (File ''b.bin'' (replicate 1048577 0 @ [1]) None None))) True"
  using get_file_hash_policy [of "File ''a.bin'' (replicate 1048577 0) None None" "''a.bin''"
      "replicate 1048577 0"
      "Symlink ''b.lnk'' (Some (File ''b.bin'' (replicate 1048577 0 @ [1]) None None))"
      "''b.bin''" "replicate 1048577 0 @ [1]" posix_env "''/r/a.bin''" "''/r/b.lnk''"]
  by (auto simp add: policy_bytes_def)

text \<open>
  C2 as stated fails at the boundary: a file of exactly 1 MiB and a file of 1 MiB + 1 byte
  that extends it differ only after their first 1 MiB, one of them is not larger than 1 MiB,
  and they receive the same digest.
\<close>

theorem get_file_hash_boundary_counterexample:
  "take 1048576 (replicate 1048576 (0 :: byte)) = take 1048576 (replicate 1048577 (0 :: byte)) \<and>
   replicate 1048576 (0 :: byte) \<noteq> replicate 1048577 0 \<and>
   length (replicate 1048576 (0 :: byte)) \<le> 1048576 \<and>
   get_file_hash posix_env ''/r/a.bin'' (File ''a.bin'' (replicate 1048576 0) None None) True =
   get_file_hash posix_env ''/r/b.bin'' (File ''b.bin'' (replicate 1048577 0) None None) True"
  by (simp add: get_file_hash_readable policy_bytes_def)

section \<open>Properties of the path normalizer\<close>

lemma startswith_append: "startswith (q @ a) (q @ b) = startswith a b"
  by (simp add: startswith_def)

lemma unc_300_facts [simp]:
  "length unc_300 = 303"
  "\<not> startswith unc_300 ext_prefix"
  "\<not> startswith unc_300 (ext_prefix @ ext_prefix)"
  "startswith (ext_prefix @ unc_300) ext_prefix"
  by (simp_all add: unc_300_def startswith_def ext_prefix_def)

text \<open>
  C8 (as amended). The rewrite is a total function of the path. On a platform other than
  Windows every path is returned unchanged. A path of at most 260 characters is returned
  unchanged where a file is about to be opened or its size read (\<^verbatim>\<open>get_file_hash\<close>,
  \<^verbatim>\<open>get_file_info\<close>, \<^verbatim>\<open>calculate_folder_size\<close>), and a path of at most 200 characters
  where a directory is about to be listed (\<^verbatim>\<open>safe_walk\<close>). In \<^verbatim>\<open>get_file_hash\<close>,
  \<^verbatim>\<open>get_file_info\<close> and \<^verbatim>\<open>safe_walk\<close> a path that already carries the extended-length
  prefix is returned unchanged, a longer path without it becomes the prefix followed by
  its absolute form, and the result is not doubly prefixed when neither the path was nor
  its absolute form carries the prefix.
\<close>

theorem long_path_rewrite:
  "(\<not> is_nt e \<longrightarrow>
      long_path_file e p = p \<and> long_path_folder e p = p \<and> long_path_walk e p = p) \<and>
   (length p \<le> 260 \<longrightarrow> long_path_file e p = p \<and> long_path_folder e p = p) \<and>
   (length p \<le> 200 \<longrightarrow> long_path_walk e p = p) \<and>
   (startswith p ext_prefix \<longrightarrow> long_path_file e p = p \<and> long_path_walk e p = p) \<and>
   (is_nt e \<and> 260 < length p \<and> \<not> startswith p ext_prefix \<longrightarrow>
      long_path_file e p = ext_prefix @ abspath e p) \<and>
   (is_nt e \<and> 200 < length p \<and> \<not> startswith p ext_prefix \<longrightarrow>
      long_path_walk e p = ext_prefix @ abspath e p) \<and>
   (\<not> startswith p (ext_prefix @ ext_prefix) \<and> \<not> startswith (abspath e p) ext_prefix \<longrightarrow>
      \<not> startswith (long_path_file e p) (ext_prefix @ ext_prefix) \<and>
      \<not> startswith (long_path_walk e p) (ext_prefix @ ext_prefix))"
  by (simp add: long_path_file_def long_path_folder_def long_path_walk_def startswith_append)

text \<open>The rewrite off Windows, on a short path, on a prefixed long path and on a long path
  without the prefix.\<close>

theorem long_path_rewrite_witness:
  "long_path_file posix_env unc_300 = unc_300 \<and>
   long_path_walk posix_env unc_300 = unc_300 \<and>
   long_path_file nt_env ''C:/short'' = ''C:/short'' \<and>
   long_path_walk nt_env ''C:/short'' = ''C:/short'' \<and>
   long_path_file nt_env (ext_prefix @ unc_300) = ext_prefix @ unc_300 \<and>
   long_path_walk nt_env (ext_prefix @ unc_300) = ext_prefix @ unc_300 \<and>
   long_path_file nt_env unc_300 = ext_prefix @ unc_300 \<and>
   long_path_walk nt_env unc_300 = ext_prefix @ unc_300 \<and>
   \<not> startswith (long_path_file nt_env unc_300) (ext_prefix @ ext_prefix)"
proof -
  have a: "long_path_file posix_env unc_300 = unc_300 \<and>
           long_path_walk posix_env unc_300 = unc_300"
    using long_path_rewrite [of posix_env unc_300] by simp
  have b: "long_path_file nt_env ''C:/short'' = ''C:/short'' \<and>
           long_path_walk nt_env ''C:/short'' = ''C:/short''"
    using long_path_rewrite [of nt_env "''C:/short''"] by simp
  have c: "long_path_file nt_env (ext_prefix @ unc_300) = ext_prefix @ unc_300 \<and>
           long_path_walk nt_env (ext_prefix @ unc_300) = ext_prefix @ unc_300"
    using long_path_rewrite [of nt_env "ext_prefix @ unc_300"] by simp
  have d: "long_path_file nt_env unc_300 = ext_prefix @ unc_300 \<and>
           long_path_walk nt_env unc_300 = ext_prefix @ unc_300 \<and>
           \<not> startswith (long_path_file nt_env unc_300) (ext_prefix @ ext_prefix)"
    using long_path_rewrite [of nt_env unc_300] by auto
  from a b c d show ?thesis by blast
qed

text \<open>
  C8 as stated fails. On Windows \<^verbatim>\<open>safe_walk\<close> rewrites a path of 201 characters, which is
  within the limit of 260; and \<^verbatim>\<open>calculate_folder_size\<close>, which does not look for the
  prefix, rewrites a long path that already carries it, so that the result carries it twice.
\<close>

theorem long_path_counterexample:
  "is_nt nt_env \<and> length unc_201 \<le> 260 \<and> long_path_walk nt_env unc_201 \<noteq> unc_201 \<and>
   startswith (ext_prefix @ unc_300) ext_prefix \<and>
   long_path_folder nt_env (ext_prefix @ unc_300) \<noteq> ext_prefix @ unc_300 \<and>
   startswith (long_path_folder nt_env (ext_prefix @ unc_300)) (ext_prefix @ ext_prefix)"
  by (simp add: long_path_walk_def long_path_folder_def unc_201_def
      startswith_def ext_prefix_def unc_300_def)

section \<open>Properties of the duplicate index\<close>

lemma dup_append_keys: "fst ` set (dup_append idx h m) = insert h (fst ` set idx)"
  by (induction idx h m rule: dup_append.induct) auto

lemma dup_append_distinct:
  "distinct (map fst idx) \<Longrightarrow> distinct (map fst (dup_append idx h m))"
proof (induction idx h m rule: dup_append.induct)
  case (1 h m)
  then show ?case by simp
next
  case (2 k ms rest h m)
  then show ?case
    using dup_append_keys [of rest h m] by (auto simp: image_iff)
qed

lemma dup_append_mem:
  "distinct (map fst idx) \<Longrightarrow>
   (k, ms) \<in> set (dup_append idx h m) \<longleftrightarrow>
     (if k = h then ms = (case map_of idx h of None \<Rightarrow> [] | Some old \<Rightarrow> old) @ [m]
      else (k, ms) \<in> set idx)"
proof (induction idx h m rule: dup_append.induct)
  case (1 h m)
  then show ?case by auto
next
  case (2 k' ms' rest h m)
  then show ?case by (auto simp: image_iff dest: map_of_SomeD split: option.splits)
qed

lemma inserted_under_snoc:
  "inserted_under (ops @ [(h, m)]) k =
     (if k = h then inserted_under ops k @ [m] else inserted_under ops k)"
  by (simp add: inserted_under_def)

lemma dup_build_snoc: "dup_build (ops @ [(h, m)]) = dup_append (dup_build ops) h m"
  by (simp add: dup_build_def)

lemma dup_build_inv:
  "distinct (map fst (dup_build ops)) \<and>
   (\<forall>k ms. (k, ms) \<in> set (dup_build ops) \<longleftrightarrow>
      ms = inserted_under ops k \<and> ms \<noteq> [])"
proof (induction ops rule: rev_induct)
  case Nil
  show ?case by (simp add: dup_build_def inserted_under_def)
next
  case (snoc x ops)
  obtain h m where x: "x = (h, m)" by (cases x)
  from snoc have d: "distinct (map fst (dup_build ops))"
    and c: "\<And>k ms. (k, ms) \<in> set (dup_build ops) \<longleftrightarrow> ms = inserted_under ops k \<and> ms \<noteq> []"
    by auto
  have mo: "(case map_of (dup_build ops) h of None \<Rightarrow> [] | Some old \<Rightarrow> old) = inserted_under ops h"
  proof (cases "map_of (dup_build ops) h")
    case None
    then have "\<And>ms. (h, ms) \<notin> set (dup_build ops)"
      by (metis d map_of_eq_Some_iff option.distinct(1))
    with c have "inserted_under ops h = []" by blast
    with None show ?thesis by simp
  next
    case (Some old)
    then have "(h, old) \<in> set (dup_build ops)" by (rule map_of_SomeD)
    with c have "old = inserted_under ops h" by blast
    with Some show ?thesis by simp
  qed
  show ?case
    unfolding x dup_build_snoc
    using dup_append_distinct [OF d, of h m] dup_append_mem [OF d, of _ _ h m] c mo
    by (auto simp: inserted_under_snoc)
qed

lemma sorted_desc_keys:
  "sorted_wrt (\<lambda>a b. b \<le> a) (map key (sorted_desc key xs))"
proof -
  have "sorted (map key (sort_key key (rev xs)))" by (rule sorted_sort_key)
  then have "sorted_wrt (\<lambda>a b. b \<le> a) (rev (map key (sort_key key (rev xs))))"
    by (simp add: sorted_wrt_rev)
  then show ?thesis by (simp add: sorted_desc_def rev_map)
qed

lemma set_sorted_desc [simp]: "set (sorted_desc key xs) = set xs"
  by (simp add: sorted_desc_def)

lemma distinct_sorted_desc: "distinct (map f (sorted_desc key xs)) = distinct (map f xs)"
proof -
  have "mset (map f (sorted_desc key xs)) = mset (map f xs)"
    by (simp add: sorted_desc_def)
  then show ?thesis by (rule mset_eq_imp_distinct_iff)
qed

lemma sorted_wrt_take: "sorted_wrt P xs \<Longrightarrow> sorted_wrt P (take n xs)"
  by (metis append_take_drop_id sorted_wrt_append)


lemma duplicate_groups_build:
  "(h, files) \<in> set (duplicate_groups (dup_build ops)) \<longleftrightarrow>
     files = inserted_under ops h \<and> 1 < length files"
  using dup_build_inv [of ops] by (auto simp: duplicate_groups_def)

lemma inserted_under_mem: "m \<in> set (inserted_under ops h) \<Longrightarrow> (h, m) \<in> set ops"
  by (auto simp: inserted_under_def)

lemma sheet_rows:
  "create_duplicates_sheet idx =
     map (\<lambda>g. (fst g, sort_key m_path (snd g)))
       (take 1000 (sorted_desc first_size (duplicate_groups idx)))"
  by (simp add: create_duplicates_sheet_def case_prod_unfold)

text \<open>
  C3 (as amended). After any sequence of registrations, the groups written at report time
  have at least 2 members each; the members of the group with key \<open>h\<close> are exactly the
  members registered under \<open>h\<close>, sorted by path; no key occurs twice; and the groups are
  ordered, largest first, by the size of the member registered first under their key.
\<close>

theorem create_duplicates_sheet_groups:
  "(\<forall>(h, ms) \<in> set (create_duplicates_sheet (dup_build ops)).
      2 \<le> length ms \<and> ms = sort_key m_path (inserted_under ops h) \<and>
      sorted (map m_path ms) \<and> (\<forall>m \<in> set ms. (h, m) \<in> set ops)) \<and>
   distinct (map fst (create_duplicates_sheet (dup_build ops))) \<and>
   sorted_wrt (\<lambda>a b. b \<le> a)
     (map (\<lambda>(h, ms). first_size (h, inserted_under ops h))
        (create_duplicates_sheet (dup_build ops)))"
proof -
  define D where "D = duplicate_groups (dup_build ops)"
  define L where "L = take 1000 (sorted_desc first_size D)"
  have gs: "create_duplicates_sheet (dup_build ops) =
              map (\<lambda>g. (fst g, sort_key m_path (snd g))) L"
    by (simp add: sheet_rows L_def D_def)
  have LD: "set L \<subseteq> set D"
    unfolding L_def using set_take_subset [of 1000 "sorted_desc first_size D"] by simp
  have Dg: "\<And>h files. (h, files) \<in> set D \<Longrightarrow> files = inserted_under ops h \<and> 1 < length files"
    unfolding D_def by (simp add: duplicate_groups_build)
  have Lg: "\<And>g. g \<in> set L \<Longrightarrow> snd g = inserted_under ops (fst g) \<and> 1 < length (snd g)"
    using LD Dg by (metis prod.collapse subsetD)
  have part1: "\<forall>(h, ms) \<in> set (create_duplicates_sheet (dup_build ops)).
      2 \<le> length ms \<and> ms = sort_key m_path (inserted_under ops h) \<and>
      sorted (map m_path ms) \<and> (\<forall>m \<in> set ms. (h, m) \<in> set ops)"
  proof (clarify, intro conjI ballI)
    fix h ms
    assume "(h, ms) \<in> set (create_duplicates_sheet (dup_build ops))"
    then obtain g where g: "g \<in> set L" and h: "h = fst g"
      and ms: "ms = sort_key m_path (snd g)"
      unfolding gs by auto
    from Lg [OF g] have sg: "snd g = inserted_under ops h" and len: "1 < length (snd g)"
      using h by auto
    show "2 \<le> length ms" using ms len by simp
    show "ms = sort_key m_path (inserted_under ops h)" using ms sg by simp
    show "sorted (map m_path ms)" unfolding ms by (rule sorted_sort_key)
    fix m assume "m \<in> set ms"
    then have "m \<in> set (inserted_under ops h)" using ms sg by simp
    then show "(h, m) \<in> set ops" by (rule inserted_under_mem)
  qed
  have dD: "distinct (map fst D)"
    unfolding D_def duplicate_groups_def
    using dup_build_inv [of ops] by (simp add: distinct_map_filter)
  have "distinct (map fst (sorted_desc first_size D))"
    using dD by (simp add: distinct_sorted_desc)
  then have "distinct (take 1000 (map fst (sorted_desc first_size D)))"
    by (rule distinct_take)
  then have dL: "distinct (map fst L)" by (simp add: L_def take_map)
  have part2: "distinct (map fst (create_duplicates_sheet (dup_build ops)))"
    unfolding gs using dL by (simp add: comp_def)
  have keys: "map (\<lambda>(h, ms). first_size (h, inserted_under ops h))
                (create_duplicates_sheet (dup_build ops)) = map first_size L"
    unfolding gs using Lg by (auto simp: comp_def first_size_def)
  have "sorted_wrt (\<lambda>a b. b \<le> a) (take 1000 (map first_size (sorted_desc first_size D)))"
    by (rule sorted_wrt_take) (rule sorted_desc_keys)
  then have part3: "sorted_wrt (\<lambda>a b. b \<le> a) (map first_size L)"
    by (simp add: L_def take_map)
  from part1 part2 part3 keys show ?thesis by simp
qed

lemma sheet_example:
  "create_duplicates_sheet (dup_build ops_example) =
     [(''d1'', [\<lparr>m_path = ''/r/a.bin'', m_name = ''a.bin'', m_size = 2097152\<rparr>,
                \<lparr>m_path = ''/r/z.bin'', m_name = ''z.bin'', m_size = 3145728\<rparr>]),
      (''d2'', [\<lparr>m_path = ''/r/c.bin'', m_name = ''c.bin'', m_size = 2621440\<rparr>,
                \<lparr>m_path = ''/r/m.bin'', m_name = ''m.bin'', m_size = 2621440\<rparr>])]"
  by (simp add: create_duplicates_sheet_def dup_build_def ops_example_def duplicate_groups_def
      sorted_desc_def first_size_def)

text \<open>The group of \<^verbatim>\<open>d1\<close> in the example: two members, sorted by path, both registered
  under \<^verbatim>\<open>d1\<close>; the single member of \<^verbatim>\<open>d3\<close> is in no group.\<close>

theorem create_duplicates_sheet_groups_witness:
  "(''d1'', [\<lparr>m_path = ''/r/a.bin'', m_name = ''a.bin'', m_size = 2097152\<rparr>,
            \<lparr>m_path = ''/r/z.bin'', m_name = ''z.bin'', m_size = 3145728\<rparr>])
     \<in> set (create_duplicates_sheet (dup_build ops_example)) \<and>
   [\<lparr>m_path = ''/r/a.bin'', m_name = ''a.bin'', m_size = 2097152\<rparr>,
    \<lparr>m_path = ''/r/z.bin'', m_name = ''z.bin'', m_size = 3145728\<rparr>] =
     sort_key m_path (inserted_under ops_example ''d1'') \<and>
   (''d1'', \<lparr>m_path = ''/r/a.bin'', m_name = ''a.bin'', m_size = 2097152\<rparr>) \<in> set ops_example \<and>
   (''d1'', \<lparr>m_path = ''/r/z.bin'', m_name = ''z.bin'', m_size = 3145728\<rparr>) \<in> set ops_example \<and>
   map fst (create_duplicates_sheet (dup_build ops_example)) = [''d1'', ''d2''] \<and>
   distinct (map fst (create_duplicates_sheet (dup_build ops_example))) \<and>
   map (\<lambda>(h, ms). first_size (h, inserted_under ops_example h))
     (create_duplicates_sheet (dup_build ops_example)) = [3145728, 2621440]"
proof -
  let ?G = "[\<lparr>m_path = ''/r/a.bin'', m_name = ''a.bin'', m_size = 2097152\<rparr>,
             \<lparr>m_path = ''/r/z.bin'', m_name = ''z.bin'', m_size = 3145728\<rparr>]"
  let ?S = "create_duplicates_sheet (dup_build ops_example)"
  have mem: "(''d1'', ?G) \<in> set ?S"
    by (simp add: sheet_example)
  have keys: "map (\<lambda>(h, ms). first_size (h, inserted_under ops_example h)) ?S =
                [3145728, 2621440]"
    unfolding sheet_example by (simp add: inserted_under_def ops_example_def first_size_def)
  have fsts: "map fst ?S = [''d1'', ''d2'']"
    by (simp add: sheet_example)
  note T = create_duplicates_sheet_groups [of ops_example]
  from T have all: "\<forall>(h, ms) \<in> set ?S.
      2 \<le> length ms \<and> ms = sort_key m_path (inserted_under ops_example h) \<and>
      sorted (map m_path ms) \<and> (\<forall>m \<in> set ms. (h, m) \<in> set ops_example)"
    by (rule conjunct1)
  from T have dist: "distinct (map fst ?S)"
    by (rule conjunct2 [THEN conjunct1])
  note g = bspec [OF all mem, unfolded prod.case]
  from g have g1: "?G = sort_key m_path (inserted_under ops_example ''d1'')"
    by (rule conjunct2 [THEN conjunct1])
  from g have g2: "\<forall>m \<in> set ?G. (''d1'', m) \<in> set ops_example"
    by (rule conjunct2 [THEN conjunct2, THEN conjunct2])
  from g2 have a: "(''d1'', \<lparr>m_path = ''/r/a.bin'', m_name = ''a.bin'', m_size = 2097152\<rparr>)
               \<in> set ops_example"
    by (rule bspec) (rule list.set_intros(1))
  from g2 have b: "(''d1'', \<lparr>m_path = ''/r/z.bin'', m_name = ''z.bin'', m_size = 3145728\<rparr>)
               \<in> set ops_example"
    by (rule bspec) (rule list.set_intros(2), rule list.set_intros(1))
  show ?thesis
    using mem g1 a b fsts dist keys by (intro conjI)
qed

text \<open>
  C3 as stated fails on the order of the groups. In the example the group of \<^verbatim>\<open>d1\<close> is
  written first, because its first registered member has 3 MiB; the member of that group
  with the smallest path has 2 MiB, less than the 2.5 MiB of the smallest-path member of
  the group written after it.
\<close>

theorem create_duplicates_sheet_order_counterexample:
  "map (\<lambda>g. (fst g, map m_path (snd g))) (create_duplicates_sheet (dup_build ops_example)) =
     [(''d1'', [''/r/a.bin'', ''/r/z.bin'']), (''d2'', [''/r/c.bin'', ''/r/m.bin''])] \<and>
   map (\<lambda>g. m_size (hd (snd g))) (create_duplicates_sheet (dup_build ops_example)) =
     [2097152, 2621440] \<and>
   \<not> sorted_wrt (\<lambda>a b. b \<le> a)
       (map (\<lambda>g. m_size (hd (snd g))) (create_duplicates_sheet (dup_build ops_example)))"
  by (simp add: sheet_example)

section \<open>Properties of the aggregator\<close>

lemma folder_file_size_bytes:
  "\<not> is_dir c \<Longrightarrow>
   (case folder_file_size e root c of Inl x \<Rightarrow> 0 | Inr sz \<Rightarrow> sz) = total_bytes c"
  by (cases c)
    (auto simp: folder_file_size_def os_stat_size_def is_dir_def Let_def
      split: option.splits fsnode.splits)

lemma count_files_fold:
  "\<forall>c \<in> set files. \<not> is_dir c \<Longrightarrow>
   foldl (count_file e root) (t, f) files =
     (t + sum_list (map total_bytes files), f + length files)"
proof (induction files arbitrary: t f)
  case Nil
  then show ?case by simp
next
  case (Cons c files)
  from Cons.prems have nd: "\<not> is_dir c" by simp
  have "count_file e root (t, f) c = (t + total_bytes c, f + 1)"
    using folder_file_size_bytes [OF nd, of e root]
    by (simp add: count_file_def split: sum.splits)
  with Cons show ?case by simp
qed

lemma foldl_concat_map:
  "foldl F a (concat (map g xs)) = foldl (\<lambda>a x. foldl F a (g x)) a xs"
  by (induction xs arbitrary: a) auto

lemma foldl_triples_sum:
  assumes "\<And>x t f s. x \<in> set xs \<Longrightarrow> foldl F (t, f, s) (g x) = (t + A x, f + B x, s + C x)"
  shows "foldl (\<lambda>a x. foldl F a (g x)) (t, f, s) xs =
           (t + sum_list (map A xs), f + sum_list (map B xs), s + sum_list (map C xs))"
  using assms
proof (induction xs arbitrary: t f s)
  case Nil
  then show ?case by simp
next
  case (Cons x xs)
  then show ?case by (simp add: add.assoc)
qed

lemma dir_link_zero:
  "is_dir c \<Longrightarrow> is_link c \<Longrightarrow> total_bytes c = 0 \<and> total_files c = 0 \<and> total_subfolders c = 0"
  by (cases c) (auto simp: is_dir_def split: option.splits fsnode.splits)

lemma nondir_one: "\<not> is_dir c \<Longrightarrow> total_files c = 1 \<and> total_subfolders c = 0"
  by (cases c) (auto simp: is_dir_def)

lemma split_bytes:
  "sum_list (map total_bytes (filter (\<lambda>c. \<not> is_dir c) cs)) +
   sum_list (map (\<lambda>c. if \<not> is_link c then total_bytes c else 0) (filter is_dir cs)) =
   sum_list (map total_bytes cs)"
  by (induction cs) (auto simp: dir_link_zero)

lemma split_files:
  "length (filter (\<lambda>c. \<not> is_dir c) cs) +
   sum_list (map (\<lambda>c. if \<not> is_link c then total_files c else 0) (filter is_dir cs)) =
   sum_list (map total_files cs)"
  by (induction cs) (auto simp: dir_link_zero nondir_one)

lemma split_subfolders:
  "length (filter is_dir cs) +
   sum_list (map (\<lambda>c. if \<not> is_link c then total_subfolders c else 0) (filter is_dir cs)) =
   sum_list (map (\<lambda>c. (if is_dir c then 1 else 0) + total_subfolders c) cs)"
  by (induction cs) (auto simp: dir_link_zero nondir_one)

lemma walk_dir_totals:
  "foldl (count_triple e) (t, f, s) (walk_dir e p (Dir n l cs)) =
     (t + total_bytes (Dir n l cs), f + total_files (Dir n l cs),
      s + total_subfolders (Dir n l cs))"
proof (induction e p "Dir n l cs" arbitrary: t f s n l cs rule: walk_dir.induct)
  case (1 e tp n cs)
  let ?g = "\<lambda>c. if \<not> is_link c then walk_dir e (join e tp (node_name c)) c else []"
  have sub: "foldl (count_triple e) (t', f', s') (?g c) =
      (t' + (if \<not> is_link c then total_bytes c else 0),
       f' + (if \<not> is_link c then total_files c else 0),
       s' + (if \<not> is_link c then total_subfolders c else 0))"
    if c: "c \<in> set (filter is_dir cs)" for c t' f' s'
  proof (cases "is_link c")
    case True
    then show ?thesis by simp
  next
    case False
    from c have "is_dir c" by simp
    with False obtain n' l' cs' where d: "c = Dir n' l' cs'"
      by (cases c) (auto simp: is_dir_def)
    from c False d "1.hyps" [of n' l' cs'] show ?thesis by simp
  qed
  have first: "count_triple e (t, f, s) (tp, filter is_dir cs, filter (\<lambda>c. \<not> is_dir c) cs) =
      (t + sum_list (map total_bytes (filter (\<lambda>c. \<not> is_dir c) cs)),
       f + length (filter (\<lambda>c. \<not> is_dir c) cs), s + length (filter is_dir cs))"
    by (simp add: count_triple_def count_files_fold)
  show ?case
    apply (simp add: first foldl_concat_map)
    apply (subst foldl_triples_sum [where A = "\<lambda>c. if \<not> is_link c then total_bytes c else 0"
          and B = "\<lambda>c. if \<not> is_link c then total_files c else 0"
          and C = "\<lambda>c. if \<not> is_link c then total_subfolders c else 0"])
    using sub apply simp
    using split_bytes [of cs] split_files [of cs] split_subfolders [of cs]
    apply simp
    done
next
  case (2 e tp n x cs)
  then show ?case by simp
qed


lemma os_walk_aggregate:
  "foldl (count_triple e) (0, 0, 0) (os_walk e p node) = aggregate node"
proof (cases "resolve node")
  case None
  then show ?thesis by (simp add: os_walk_def aggregate_def)
next
  case (Some d)
  show ?thesis
  proof (cases d)
    case (Dir n l cs)
    with Some show ?thesis
      using walk_dir_totals [of e 0 0 0 p n l cs] by (simp add: os_walk_def aggregate_def)
  qed (use Some in \<open>simp_all add: os_walk_def aggregate_def\<close>)
qed


lemma aggregate_tree_example: "aggregate tree_example = (6, 4, 3)"
  by (simp add: aggregate_def tree_example_def is_dir_def)

section \<open>Properties of the entry scanner\<close>

lemma yields_append [simp]: "yields (a @ b) = yields a @ yields b"
  by (induction a rule: yields.induct) auto

lemma failures_append [simp]: "failures (a @ b) = failures a @ failures b"
  by (induction a rule: failures.induct) auto

lemma yields_concat: "yields (concat xs) = concat (map yields xs)"
  by (induction xs) auto

lemma resolve_idem: "resolve node = Some d \<Longrightarrow> resolve d = Some d"
  by (induction node arbitrary: d rule: resolve.induct) auto

lemma resolve_not_link: "resolve node = Some d \<Longrightarrow> \<not> is_link d"
  by (induction node arbitrary: d rule: resolve.induct) auto

lemma os_scandir_resolve: "resolve a = resolve b \<Longrightarrow> os_scandir p a = os_scandir p b"
  by (simp add: os_scandir_def)

lemma safe_walk_resolve:
  assumes "resolve root = Some d"
  shows "safe_walk e p root = safe_walk e p d"
proof -
  from assms have "resolve root = resolve d" by (simp add: resolve_idem)
  then have "os_scandir q root = os_scandir q d" for q by (rule os_scandir_resolve)
  then show ?thesis
    by (subst safe_walk.simps, subst (2) safe_walk.simps) (simp add: Let_def)
qed

lemma safe_walk_listable:
  "safe_walk e p (Dir n None cs) = concat (map (walk_item e (long_path_walk e p)) cs)"
  by (subst safe_walk.simps) (simp add: os_scandir_def Let_def walk_item_def [abs_def])

lemma safe_walk_unlistable:
  "safe_walk e p (Dir n (Some c) cs) =
     [Failure (''Error scanning: '' @ long_path_walk e p @ '' - '' @
               str_exn (OSError c (long_path_walk e p)))]"
  by (subst safe_walk.simps) (simp add: os_scandir_def Let_def)

lemma safe_walk_file:
  "safe_walk e p (File n d s r) =
     [Failure (''Error scanning: '' @ long_path_walk e p @ '' - '' @
               str_exn (OSError ENOTDIR (long_path_walk e p)))]"
  by (subst safe_walk.simps) (simp add: os_scandir_def Let_def)

lemma safe_walk_dangling:
  "resolve root = None \<Longrightarrow> safe_walk e p root =
     [Failure (''Error scanning: '' @ long_path_walk e p @ '' - '' @
               str_exn (OSError ENOENT (long_path_walk e p)))]"
  by (subst safe_walk.simps) (simp add: os_scandir_def Let_def)

lemma yields_nodes_dir: "map snd (yields (safe_walk e p (Dir n l cs))) = preorder (Dir n l cs)"
proof (induction "Dir n l cs" arbitrary: e p n l cs rule: preorder.induct)
  case (1 n l cs)
  show ?case
  proof (cases l)
    case (Some c)
    then show ?thesis by (simp add: safe_walk_unlistable)
  next
    case None
    have item: "map snd (yields (walk_item e q c)) = c # preorder c" if "c \<in> set cs" for c q
    proof (cases c)
      case (Dir n' l' cs')
      with None that 1 [of n' l' cs'] show ?thesis by (simp add: walk_item_def)
    qed (simp_all add: walk_item_def)
    show ?thesis
      using None item
      by (simp add: safe_walk_listable yields_concat map_concat comp_def cong: map_cong)
  qed
qed

lemma yields_nodes: "map snd (yields (safe_walk e p root)) = scan_order root"
proof (cases "resolve root")
  case None
  then show ?thesis by (simp add: safe_walk_dangling scan_order_def)
next
  case (Some d)
  then have sw: "safe_walk e p root = safe_walk e p d" by (rule safe_walk_resolve)
  from Some have nl: "\<not> is_link d" by (rule resolve_not_link)
  show ?thesis
  proof (cases d)
    case (Dir n l cs)
    with Some sw show ?thesis by (simp add: scan_order_def yields_nodes_dir)
  next
    case (File n dd s r)
    with Some sw show ?thesis by (simp add: scan_order_def safe_walk_file)
  next
    case (Symlink n t)
    with nl show ?thesis by simp
  qed
qed

lemma preorder_reachable: "x \<in> set (preorder d) \<Longrightarrow> reachable d x"
proof (induction d arbitrary: x rule: preorder.induct)
  case (1 n l cs)
  from "1.prems" have l: "l = None" by (auto split: if_splits)
  with "1.prems" obtain c where c: "c \<in> set cs" and x: "x = c \<or> x \<in> set (preorder c)"
    by auto
  from x show ?case
  proof
    assume "x = c"
    with c l show ?thesis by (auto intro: reachable.child)
  next
    assume "x \<in> set (preorder c)"
    with "1.IH" [OF l c] have "reachable c x" by simp
    with c l show ?thesis by (auto intro: reachable.below)
  qed
qed simp_all

lemma reachable_preorder: "reachable d x \<Longrightarrow> x \<in> set (preorder d)"
  by (induction rule: reachable.induct) auto

lemma scan_order_reachable:
  "set (scan_order root) = {x. \<exists>d. resolve root = Some d \<and> reachable d x}"
proof (cases "resolve root")
  case None
  then show ?thesis by (simp add: scan_order_def)
next
  case (Some d)
  then show ?thesis
    by (auto simp: scan_order_def dest: preorder_reachable reachable_preorder)
qed

lemma safe_walk_siblings:
  "safe_walk e p (Dir n None (pre @ c # post)) =
     safe_walk e p (Dir n None pre) @ walk_item e (long_path_walk e p) c @
     safe_walk e p (Dir n None post)"
  by (simp add: safe_walk_listable)

subsection \<open>Paths of the yielded entries\<close>

lemma join_split:
  "join e p m = p @ (if p = [] \<or> last p = sep e then [] else [sep e]) @ m"
  by (simp add: join_def)

lemma join_join:
  assumes "m \<noteq> []" "sep e \<notin> set m"
  shows "join e (join e p m) m' = join e p m @ [sep e] @ m'"
proof -
  from assms have "join e p m \<noteq> []" by (simp add: join_def)
  moreover from assms have "last (join e p m) = last m" by (simp add: join_def)
  moreover from assms have "last m \<noteq> sep e" by (metis last_in_set)
  ultimately show ?thesis by (simp add: join_def)
qed

lemma extends_refl: "extends_path e q q"
  by (simp add: extends_path_def)

lemma extends_join_join:
  assumes "m \<noteq> []" "sep e \<notin> set m" and ex: "extends_path e (join e (join e p m) m') s"
  shows "extends_path e (join e p m) s \<and> s \<noteq> join e p m"
proof -
  from ex obtain r where "s = join e (join e p m) m' @ r" by (auto simp: extends_path_def)
  then have s: "s = join e p m @ (sep e # m' @ r)"
    using join_join [OF assms(1,2)] by simp
  then have "extends_path e (join e p m) s" unfolding extends_path_def by auto
  moreover from s have "s \<noteq> join e p m" by simp
  ultimately show ?thesis by simp
qed

lemma takeWhile_name:
  "sep e \<notin> set m \<Longrightarrow> r = [] \<or> hd r = sep e \<Longrightarrow>
   takeWhile (\<lambda>c. c \<noteq> sep e) (m @ r) = m"
  by (induction m) (cases r; auto)+

lemma extends_distinct_names:
  assumes "sep e \<notin> set m1" "sep e \<notin> set m2" "m1 \<noteq> m2"
    and "extends_path e (join e p m1) s1" "extends_path e (join e p m2) s2"
  shows "s1 \<noteq> s2"
proof
  assume eq: "s1 = s2"
  from assms(4) obtain r1 where s1: "s1 = join e p m1 @ r1" and r1: "r1 = [] \<or> hd r1 = sep e"
    by (auto simp: extends_path_def)
  from assms(5) obtain r2 where s2: "s2 = join e p m2 @ r2" and r2: "r2 = [] \<or> hd r2 = sep e"
    by (auto simp: extends_path_def)
  from eq s1 s2 have "m1 @ r1 = m2 @ r2" by (simp add: join_split)
  then have "takeWhile (\<lambda>c. c \<noteq> sep e) (m1 @ r1) = takeWhile (\<lambda>c. c \<noteq> sep e) (m2 @ r2)"
    by simp
  with takeWhile_name [OF assms(1) r1] takeWhile_name [OF assms(2) r2] have "m1 = m2" by simp
  with assms(3) show False by simp
qed

lemma posix_walk: "\<not> is_nt e \<Longrightarrow> long_path_walk e p = p"
  by (simp add: long_path_walk_def)

lemma walk_paths:
  assumes posix: "\<not> is_nt e"
  shows "is_dir_nofollow node \<Longrightarrow> wf_names e node \<Longrightarrow>
         distinct (map fst (yields (safe_walk e q node))) \<and>
         (\<forall>s \<in> set (map fst (yields (safe_walk e q node))).
            \<exists>m. m \<noteq> [] \<and> sep e \<notin> set m \<and> extends_path e (join e q m) s)"
proof (induction node arbitrary: q)
  case (File n d s r)
  then show ?case by simp
next
  case (Symlink n t)
  then show ?case by simp
next
  case (Dir n l cs)
  show ?case
  proof (cases l)
    case (Some c)
    then show ?thesis by (simp add: safe_walk_unlistable)
  next
    case None
    let ?paths = "\<lambda>evs. map fst (yields evs)"
    from Dir.prems None have names: "distinct (map node_name cs)"
      and ok: "\<And>c. c \<in> set cs \<Longrightarrow> node_name c \<noteq> [] \<and> sep e \<notin> set (node_name c) \<and> wf_names e c"
      by auto
    have item: "distinct (?paths (walk_item e q c)) \<and>
        (\<forall>s \<in> set (?paths (walk_item e q c)). extends_path e (join e q (node_name c)) s)"
      if c: "c \<in> set cs" for c
    proof (cases "is_dir_nofollow c")
      case False
      then show ?thesis by (simp add: walk_item_def extends_refl)
    next
      case True
      from ok [OF c] have m1: "node_name c \<noteq> []" and m2: "sep e \<notin> set (node_name c)"
        and wf: "wf_names e c" by auto
      from Dir.IH [OF c True wf, of "join e q (node_name c)"]
      have d: "distinct (?paths (safe_walk e (join e q (node_name c)) c))"
        and b: "\<And>s. s \<in> set (?paths (safe_walk e (join e q (node_name c)) c)) \<Longrightarrow>
          \<exists>m. extends_path e (join e (join e q (node_name c)) m) s"
        by blast+
      have sub: "extends_path e (join e q (node_name c)) s \<and> s \<noteq> join e q (node_name c)"
        if "s \<in> set (?paths (safe_walk e (join e q (node_name c)) c))" for s
        using b [OF that] extends_join_join [OF m1 m2] by blast
      from True d sub show ?thesis
        by (auto simp: walk_item_def extends_refl)
    qed
    have all: "set cs' \<subseteq> set cs \<Longrightarrow> distinct (map node_name cs') \<Longrightarrow>
        distinct (?paths (concat (map (walk_item e q) cs'))) \<and>
        (\<forall>s \<in> set (?paths (concat (map (walk_item e q) cs'))).
           \<exists>c \<in> set cs'. extends_path e (join e q (node_name c)) s)" for cs'
    proof (induction cs')
      case Nil
      then show ?case by simp
    next
      case (Cons c cs')
      from Cons.prems have c: "c \<in> set cs" and sub: "set cs' \<subseteq> set cs"
        and dn: "distinct (map node_name cs')" and fresh: "node_name c \<notin> node_name ` set cs'"
        by auto
      note ih = Cons.IH [OF sub dn]
      note it = item [OF c]
      have disj: "s \<noteq> s'"
        if s: "s \<in> set (?paths (walk_item e q c))"
          and s': "s' \<in> set (?paths (concat (map (walk_item e q) cs')))" for s s'
      proof -
        from it s have e1: "extends_path e (join e q (node_name c)) s" by blast
        from ih s' obtain c' where c': "c' \<in> set cs'"
          and e2: "extends_path e (join e q (node_name c')) s'" by blast
        from c' fresh have ne: "node_name c \<noteq> node_name c'" by auto
        from c' sub have "c' \<in> set cs" by auto
        with ok have "sep e \<notin> set (node_name c')" by blast
        moreover from ok [OF c] have "sep e \<notin> set (node_name c)" by blast
        ultimately show ?thesis using extends_distinct_names ne e1 e2 by blast
      qed
      have d: "distinct (?paths (walk_item e q c) @ ?paths (concat (map (walk_item e q) cs')))"
        using it ih disj by (simp only: distinct_append) blast
      have m: "\<forall>s \<in> set (?paths (walk_item e q c) @ ?paths (concat (map (walk_item e q) cs'))).
           \<exists>c' \<in> set (c # cs'). extends_path e (join e q (node_name c')) s"
        using it ih by auto
      from d m show ?case by simp
    qed
    from all [of cs] names have
      d: "distinct (?paths (concat (map (walk_item e q) cs)))"
      and b: "\<And>s. s \<in> set (?paths (concat (map (walk_item e q) cs))) \<Longrightarrow>
           \<exists>c \<in> set cs. extends_path e (join e q (node_name c)) s"
      by auto
    have "\<exists>m. m \<noteq> [] \<and> sep e \<notin> set m \<and> extends_path e (join e q m) s"
      if "s \<in> set (?paths (concat (map (walk_item e q) cs)))" for s
      using b [OF that] ok by blast
    with d None posix show ?thesis
      by (simp add: safe_walk_listable posix_walk)
  qed
qed

subsection \<open>The scan order\<close>

lemma root_paths_distinct:
  assumes "\<not> is_nt e" and "\<forall>d. resolve root = Some d \<longrightarrow> wf_names e d"
  shows "distinct (map fst (yields (safe_walk e p root)))"
proof (cases "resolve root")
  case None
  then show ?thesis by (simp add: safe_walk_dangling)
next
  case (Some d)
  then have sw: "safe_walk e p root = safe_walk e p d" by (rule safe_walk_resolve)
  from Some assms(2) have wf: "wf_names e d" by simp
  show ?thesis
  proof (cases "is_dir_nofollow d")
    case True
    from walk_paths [OF assms(1) True wf, of p] sw show ?thesis by simp
  next
    case False
    from Some have "\<not> is_link d" by (rule resolve_not_link)
    with False obtain n dd s r where "d = File n dd s r" by (cases d) auto
    with sw show ?thesis by (simp add: safe_walk_file)
  qed
qed

lemma walk_item_link: "is_link c \<Longrightarrow> walk_item e q c = [Yield (join e q (node_name c)) c]"
  by (cases c) (simp_all add: walk_item_def)

text \<open>
  C1. For every root, the entries \<^verbatim>\<open>safe_walk\<close> yields are, in this order, the pre-order
  listing of the tree below the root: each entry, then everything below it when it is a
  directory that can be listed, then its next sibling. These are exactly the entries
  reachable from the root through directories that can be listed; nothing is reached
  through a link, whose turn of the loop yields the link and nothing else, and the sequence
  is a finite list whatever the links lead to. The events of a directory's entries follow
  each other sibling by sibling. With file-system names and POSIX paths, no path is yielded
  twice.
\<close>

theorem safe_walk_preorder:
  "map snd (yields (safe_walk e p root)) = scan_order root \<and>
   set (scan_order root) = {x. \<exists>d. resolve root = Some d \<and> reachable d x} \<and>
   (\<not> is_nt e \<and> (\<forall>d. resolve root = Some d \<longrightarrow> wf_names e d) \<longrightarrow>
      distinct (map fst (yields (safe_walk e p root)))) \<and>
   safe_walk e p (Dir n None (pre @ c # post)) =
     safe_walk e p (Dir n None pre) @ walk_item e (long_path_walk e p) c @
     safe_walk e p (Dir n None post) \<and>
   (is_link c \<longrightarrow> walk_item e q c = [Yield (join e q (node_name c)) c])"
  using yields_nodes [of e p root] scan_order_reachable [of root]
    root_paths_distinct [of e root p] safe_walk_siblings [of e p n pre c post]
    walk_item_link [of c e q]
  by (intro conjI impI) simp_all

lemma safe_walk_tree_example:
  "map fst (yields (safe_walk posix_env ''/r'' tree_example)) =
     [''/r/a.txt'', ''/r/sub'', ''/r/sub/b.txt'', ''/r/sub/c.txt'', ''/r/locked'',
      ''/r/lnk'', ''/r/dangling'']"
  by (simp add: tree_example_def safe_walk_listable safe_walk_unlistable walk_item_def
      posix_walk join_def sep_def)

lemma wf_tree_example: "wf_names posix_env tree_example"
  by (simp add: tree_example_def sep_def)


text \<open>The scan of the example tree: seven entries in pre-order, nothing from inside the
  folder that cannot be listed or from behind the links.\<close>

theorem safe_walk_preorder_witness:
  "\<not> is_nt posix_env \<and> resolve tree_example = Some tree_example \<and>
   wf_names posix_env tree_example \<and>
   map snd (yields (safe_walk posix_env ''/r'' tree_example)) = scan_order tree_example \<and>
   map fst (yields (safe_walk posix_env ''/r'' tree_example)) =
     [''/r/a.txt'', ''/r/sub'', ''/r/sub/b.txt'', ''/r/sub/c.txt'', ''/r/locked'',
      ''/r/lnk'', ''/r/dangling''] \<and>
   distinct (map fst (yields (safe_walk posix_env ''/r'' tree_example))) \<and>
   is_link (Symlink ''dangling'' None) \<and>
   walk_item posix_env ''/r'' (Symlink ''dangling'' None) =
     [Yield ''/r/dangling'' (Symlink ''dangling'' None)]"
proof -
  note T = safe_walk_preorder [of posix_env "''/r''" tree_example "''r''" "[]"
      "Symlink ''dangling'' None" "[]" "''/r''"]
  have r: "resolve tree_example = Some tree_example"
    by (simp add: tree_example_def)
  have h: "\<not> is_nt posix_env \<and> (\<forall>d. resolve tree_example = Some d \<longrightarrow> wf_names posix_env d)"
    using wf_tree_example by (simp add: r)
  from T have a: "map snd (yields (safe_walk posix_env ''/r'' tree_example)) =
      scan_order tree_example"
    by (rule conjunct1)
  from T [THEN conjunct2, THEN conjunct2, THEN conjunct1] h
  have d: "distinct (map fst (yields (safe_walk posix_env ''/r'' tree_example)))"
    by (rule mp)
  have l: "is_link (Symlink ''dangling'' None)" by simp
  from T [THEN conjunct2, THEN conjunct2, THEN conjunct2, THEN conjunct2] l
  have w: "walk_item posix_env ''/r'' (Symlink ''dangling'' None) =
      [Yield (join posix_env ''/r'' (node_name (Symlink ''dangling'' None)))
         (Symlink ''dangling'' None)]"
    by (rule mp)
  have j: "join posix_env ''/r'' (node_name (Symlink ''dangling'' None)) = ''/r/dangling''"
    by (simp add: join_def sep_def)
  have n: "\<not> is_nt posix_env" by simp
  show ?thesis
    using n r wf_tree_example a safe_walk_tree_example d l w [unfolded j] by (intro conjI)
qed

section \<open>Properties of the driver\<close>

subsection \<open>What one entry adds to the collections\<close>

lemma get_file_info_record:
  "fst (get_file_info e root q x st) = file_record e root q x"
  by (simp add: file_record_def get_file_info_def Let_def split: sum.splits option.splits)

lemma get_file_info_keeps:
  "files_data (snd (get_file_info e root q x st)) = files_data st \<and>
   folders_data (snd (get_file_info e root q x st)) = folders_data st \<and>
   file_types_summary (snd (get_file_info e root q x st)) = file_types_summary st"
  by (simp add: get_file_info_def Let_def log_error_def split: sum.splits option.splits)


lemma get_file_info_duplicates:
  "duplicates (snd (get_file_info e root q x st)) =
     (case file_record e root q x of
        None \<Rightarrow> duplicates st
      | Some info \<Rightarrow>
          (case fi_hash info of
             None \<Rightarrow> duplicates st
           | Some h \<Rightarrow>
               dup_append (duplicates st) h
                 \<lparr>m_path = fi_path info, m_name = fi_name info, m_size = fi_size_bytes info\<rparr>))"
  by (simp add: file_record_def get_file_info_def Let_def log_error_def
      split: sum.splits option.splits)

lemma file_record_None:
  "file_record e root q x = None \<longleftrightarrow> (\<exists>err. os_stat_size (long_path_file e q) x = Inl err)"
  by (auto simp: file_record_def get_file_info_def Let_def split: sum.splits option.splits)

lemma file_record_Some:
  assumes "file_record e root q x = Some info"
  shows "fi_path info = q \<and>
         os_stat_size (long_path_file e q) x = Inr (fi_size_bytes info) \<and>
         (fi_size_bytes info < 104857600 \<longrightarrow>
            fi_hash info =
              (case get_file_hash e q x True of
                 None \<Rightarrow> None | Some h \<Rightarrow> if h = [] then None else Some h)) \<and>
         (104857600 \<le> fi_size_bytes info \<longrightarrow> fi_hash info = None)"
  using assms
  by (auto simp: file_record_def get_file_info_def Let_def split: sum.splits option.splits if_splits)

lemma os_stat_size_file: 
  "resolve x = Some (File n d None r) \<Longrightarrow> os_stat_size p x = Inr (length d)"
  by (simp add: os_stat_size_def)

lemma process_item_file:
  assumes "is_file x"
  shows "process_item e root q x st =
     (case file_record e root q x of
        None \<Rightarrow> snd (get_file_info e root q x st)
      | Some info \<Rightarrow> add_file info (snd (get_file_info e root q x st)))"
proof -
  obtain r st' where g: "get_file_info e root q x st = (r, st')"
    by (cases "get_file_info e root q x st")
  with get_file_info_record [of e root q x st] have r: "file_record e root q x = r" by simp
  from assms g r show ?thesis
    by (simp add: process_item_def split: option.splits)
qed

lemma handle_event_files:
  "files_data (handle_event e root st ev) = files_data st @ event_files e root ev"
proof (cases ev)
  case (Failure m)
  then show ?thesis by (simp add: handle_event_def event_files_def log_error_def)
next
  case (Yield q x)
  show ?thesis
  proof (cases "is_file x")
    case True
    then show ?thesis
      using Yield get_file_info_keeps [of e root q x st]
      by (simp add: handle_event_def event_files_def process_item_file add_file_def
          split: option.splits)
  next
    case False
    then show ?thesis
      using Yield
      by (simp add: handle_event_def event_files_def process_item_def calculate_folder_size_def
          add_folder_def log_error_def split: sum.splits)
  qed
qed

lemma run_files:
  "files_data (foldl (handle_event e root) st evs) =
     files_data st @ concat (map (event_files e root) evs)"
  by (induction evs arbitrary: st) (simp_all add: handle_event_files)


lemma is_file_not_dir: "is_file x \<Longrightarrow> \<not> is_dir x"
  by (auto simp: is_file_def is_dir_def split: option.splits fsnode.splits)

lemma calculate_folder_size_eq: "calculate_folder_size e p node st = (aggregate node, st)"
  by (simp add: calculate_folder_size_def os_walk_aggregate)

lemma process_item_dir:
  assumes "is_dir x"
  shows "process_item e root q x st =
     (case (if q \<noteq> root then relative_to e q root else Inr []) of
        Inl err \<Rightarrow> log_error (''Error processing folder '' @ q @ '': '' @ str_exn err) st
      | Inr rel \<Rightarrow>
          add_folder (folder_record e q (aggregate x) (if rel \<noteq> [] then length rel else 0)) st)"
  using assms is_file_not_dir [of x]
  by (auto simp: process_item_def calculate_folder_size_eq)

lemma process_item_other:
  "\<not> is_file x \<Longrightarrow> \<not> is_dir x \<Longrightarrow> process_item e root q x st = st"
  by (simp add: process_item_def)

lemma handle_event_folders:
  "folders_data (handle_event e root st ev) = folders_data st @ event_folders e root ev"
proof (cases ev)
  case (Failure m)
  then show ?thesis by (simp add: handle_event_def event_folders_def log_error_def)
next
  case (Yield q x)
  consider (f) "is_file x" | (d) "is_dir x" | (o) "\<not> is_file x" "\<not> is_dir x" by blast
  then show ?thesis
  proof cases
    case f
    then show ?thesis
      using Yield get_file_info_keeps [of e root q x st] is_file_not_dir [of x]
      by (simp add: handle_event_def event_folders_def process_item_file add_file_def
          split: option.splits)
  next
    case d
    then show ?thesis
      using Yield
      by (simp add: handle_event_def event_folders_def process_item_dir add_folder_def
          log_error_def split: sum.splits)
  next
    case o
    then show ?thesis
      using Yield by (simp add: handle_event_def event_folders_def process_item_other)
  qed
qed

lemma run_folders:
  "folders_data (foldl (handle_event e root) st evs) =
     folders_data st @ concat (map (event_folders e root) evs)"
  by (induction evs arbitrary: st) (simp_all add: handle_event_folders)




subsection \<open>Members of the duplicate index\<close>

lemma dup_append_members:
  "(k, ms) \<in> set (dup_append idx h m) \<Longrightarrow> m' \<in> set ms \<Longrightarrow>
   (k = h \<and> m' = m) \<or> (\<exists>ms'. (k, ms') \<in> set idx \<and> m' \<in> set ms')"
  by (induction idx h m rule: dup_append.induct) (auto split: if_splits)

lemma members_recorded_init: "members_recorded init_analyzer"
  by (simp add: members_recorded_def init_analyzer_def)

lemma members_recorded_step:
  assumes inv: "members_recorded st"
  shows "members_recorded (handle_event e root st ev)"
proof (cases ev)
  case (Failure m)
  with inv show ?thesis by (simp add: handle_event_def log_error_def members_recorded_def)
next
  case (Yield q x)
  consider (f) "is_file x" | (d) "is_dir x" | (o) "\<not> is_file x" "\<not> is_dir x" by blast
  then show ?thesis
  proof cases
    case d
    with inv Yield show ?thesis
      by (simp add: handle_event_def process_item_dir add_folder_def log_error_def
          members_recorded_def split: sum.splits)
  next
    case o
    with inv Yield show ?thesis by (simp add: handle_event_def process_item_other)
  next
    case f
    let ?st = "snd (get_file_info e root q x st)"
    note keep = get_file_info_keeps [of e root q x st]
    note dups = get_file_info_duplicates [of e root q x st]
    show ?thesis
    proof (cases "file_record e root q x")
      case None
      with f Yield have "handle_event e root st ev = ?st"
        by (simp add: handle_event_def process_item_file)
      moreover from None dups keep inv have "members_recorded ?st"
        by (simp add: members_recorded_def)
      ultimately show ?thesis by simp
    next
      case (Some info)
      with f Yield have h: "handle_event e root st ev = add_file info ?st"
        by (simp add: handle_event_def process_item_file)
      have fd: "files_data (add_file info ?st) = files_data st @ [info]"
        using keep by (simp add: add_file_def)
      have dd: "duplicates (add_file info ?st) =
          (case fi_hash info of None \<Rightarrow> duplicates st
           | Some h \<Rightarrow> dup_append (duplicates st) h
               \<lparr>m_path = fi_path info, m_name = fi_name info, m_size = fi_size_bytes info\<rparr>)"
        using dups Some by (simp add: add_file_def)
      have small: "fi_size_bytes info < 104857600" if "fi_hash info = Some k" for k
        using file_record_Some [OF Some] that by (cases "fi_size_bytes info < 104857600") auto
      show ?thesis
        unfolding h members_recorded_def fd
      proof (intro allI impI)
        fix k ms m
        assume g: "(k, ms) \<in> set (duplicates (add_file info ?st))" and m: "m \<in> set ms"
        show "\<exists>i \<in> set (files_data st @ [info]).
            fi_hash i = Some k \<and> fi_path i = m_path m \<and> fi_name i = m_name m \<and>
            fi_size_bytes i = m_size m \<and> m_size m < 104857600"
        proof (cases "fi_hash info")
          case None
          with g dd have "(k, ms) \<in> set (duplicates st)" by simp
          with inv m show ?thesis unfolding members_recorded_def by fastforce
        next
          case (Some hh)
          with g dd have "(k, ms) \<in> set (dup_append (duplicates st) hh
               \<lparr>m_path = fi_path info, m_name = fi_name info, m_size = fi_size_bytes info\<rparr>)"
            by simp
          from dup_append_members [OF this m] show ?thesis
          proof
            assume "k = hh \<and> m = \<lparr>m_path = fi_path info, m_name = fi_name info,
                m_size = fi_size_bytes info\<rparr>"
            with Some small [OF Some] show ?thesis by simp
          next
            assume "\<exists>ms'. (k, ms') \<in> set (duplicates st) \<and> m \<in> set ms'"
            with inv show ?thesis unfolding members_recorded_def by fastforce
          qed
        qed
      qed
    qed
  qed
qed

lemma members_recorded_run:
  "members_recorded st \<Longrightarrow> members_recorded (foldl (handle_event e root) st evs)"
  by (induction evs arbitrary: st) (simp_all add: members_recorded_step)

lemma add_root_folder_keeps:
  "files_data (add_root_folder e p root st) = files_data st \<and>
   duplicates (add_root_folder e p root st) = duplicates st \<and>
   file_types_summary (add_root_folder e p root st) = file_types_summary st \<and>
   errors (add_root_folder e p root st) = errors st"
  by (simp add: add_root_folder_def calculate_folder_size_eq add_folder_def)

lemma members_recorded_analyze: "members_recorded (analyze_directory e p root)"
  using members_recorded_run [OF members_recorded_init, of e p "safe_walk e p root"]
    add_root_folder_keeps [of e p root "foldl (handle_event e p) init_analyzer (safe_walk e p root)"]
  by (simp add: analyze_directory_def members_recorded_def)


subsection \<open>The file-type summary\<close>

lemma summary_add_keys: "fst ` set (summary_add s ext sz) = insert ext (fst ` set s)"
  by (induction s ext sz rule: summary_add.induct) auto

lemma summary_add_distinct:
  "distinct (map fst s) \<Longrightarrow> distinct (map fst (summary_add s ext sz))"
proof (induction s ext sz rule: summary_add.induct)
  case (1 ext sz)
  then show ?case by simp
next
  case (2 k v rest ext sz)
  then show ?case using summary_add_keys [of rest ext sz] by (auto simp: image_iff)
qed

lemma summary_add_map_of:
  "map_of (summary_add s ext sz) k =
     (if k = ext
      then Some (case map_of s ext of
                   None \<Rightarrow> \<lparr>ts_count = 1, ts_size = sz\<rparr>
                 | Some v \<Rightarrow> \<lparr>ts_count = ts_count v + 1, ts_size = ts_size v + sz\<rparr>)
      else map_of s k)"
  by (induction s ext sz rule: summary_add.induct) auto

lemma summary_of_snoc:
  "summary_of (infos @ [i]) ext =
     (if ext = fi_extension i
      then Some (case summary_of infos ext of
                   None \<Rightarrow> \<lparr>ts_count = 1, ts_size = fi_size_bytes i\<rparr>
                 | Some v \<Rightarrow> \<lparr>ts_count = ts_count v + 1,
                               ts_size = ts_size v + fi_size_bytes i\<rparr>)
      else summary_of infos ext)"
  by (auto simp: summary_of_def Let_def)

lemma summary_consistent_init: "summary_consistent init_analyzer"
  by (simp add: summary_consistent_def init_analyzer_def summary_of_def)

lemma summary_consistent_add_file:
  assumes "summary_consistent st"
  shows "summary_consistent (add_file info st)"
  using assms
  by (simp add: summary_consistent_def add_file_def summary_add_distinct summary_add_map_of
      summary_of_snoc)

lemma summary_consistent_cong:
  "files_data st' = files_data st \<Longrightarrow> file_types_summary st' = file_types_summary st \<Longrightarrow>
   summary_consistent st' = summary_consistent st"
  by (simp add: summary_consistent_def)

lemma handle_event_summary_step:
  "\<exists>added. files_data (handle_event e root st ev) = files_data st @ added \<and>
     file_types_summary (handle_event e root st ev) =
       foldl (\<lambda>s i. summary_add s (fi_extension i) (fi_size_bytes i)) (file_types_summary st) added"
proof (cases ev)
  case (Failure m)
  then show ?thesis by (simp add: handle_event_def log_error_def)
next
  case (Yield q x)
  consider (f) "is_file x" | (d) "is_dir x" | (o) "\<not> is_file x" "\<not> is_dir x" by blast
  then show ?thesis
  proof cases
    case f
    show ?thesis
    proof (cases "file_record e root q x")
      case None
      with f Yield get_file_info_keeps [of e root q x st] show ?thesis
        by (simp add: handle_event_def process_item_file)
    next
      case (Some info)
      with f Yield get_file_info_keeps [of e root q x st]
      have "files_data (handle_event e root st ev) = files_data st @ [info] \<and>
        file_types_summary (handle_event e root st ev) =
          foldl (\<lambda>s i. summary_add s (fi_extension i) (fi_size_bytes i))
            (file_types_summary st) [info]"
        by (simp add: handle_event_def process_item_file add_file_def)
      then show ?thesis by blast
    qed
  next
    case d
    with Yield show ?thesis
      by (simp add: handle_event_def process_item_dir add_folder_def log_error_def
          split: sum.splits)
  next
    case o
    with Yield show ?thesis by (simp add: handle_event_def process_item_other)
  qed
qed

lemma summary_consistent_fold:
  assumes "summary_consistent st"
    and "files_data st' = files_data st @ added"
    and "file_types_summary st' =
       foldl (\<lambda>s i. summary_add s (fi_extension i) (fi_size_bytes i)) (file_types_summary st) added"
  shows "summary_consistent st'"
  using assms
proof (induction added arbitrary: st' rule: rev_induct)
  case Nil
  then show ?case by (simp add: summary_consistent_def)
next
  case (snoc i added)
  define mid where "mid = st\<lparr>files_data := files_data st @ added,
      file_types_summary := foldl (\<lambda>s i. summary_add s (fi_extension i) (fi_size_bytes i))
        (file_types_summary st) added\<rparr>"
  have "summary_consistent mid"
    by (rule snoc.IH [OF snoc.prems(1)]) (simp_all add: mid_def)
  then have "summary_consistent (add_file i mid)" by (rule summary_consistent_add_file)
  moreover have "files_data st' = files_data (add_file i mid)"
    and "file_types_summary st' = file_types_summary (add_file i mid)"
    using snoc.prems by (simp_all add: mid_def add_file_def)
  ultimately show ?case by (simp add: summary_consistent_def)
qed

lemma summary_consistent_step:
  "summary_consistent st \<Longrightarrow> summary_consistent (handle_event e root st ev)"
  using handle_event_summary_step [of e root st ev] summary_consistent_fold by blast

lemma summary_consistent_run:
  "summary_consistent st \<Longrightarrow> summary_consistent (foldl (handle_event e root) st evs)"
  by (induction evs arbitrary: st) (simp_all add: summary_consistent_step)

lemma summary_consistent_analyze: "summary_consistent (analyze_directory e p root)"
  using summary_consistent_run [OF summary_consistent_init, of e p "safe_walk e p root"]
    add_root_folder_keeps [of e p root "foldl (handle_event e p) init_analyzer (safe_walk e p root)"]
  by (simp add: analyze_directory_def summary_consistent_def)

subsection \<open>The collections of an analysis\<close>

lemma yields_mem: "(q, x) \<in> set (yields evs) \<longleftrightarrow> Yield q x \<in> set evs"
  by (induction evs rule: yields.induct) auto

lemma analysis_files:
  "files_data (analyze_directory e p root) =
     concat (map (event_files e p) (safe_walk e p root))"
  using add_root_folder_keeps [of e p root "foldl (handle_event e p) init_analyzer (safe_walk e p root)"]
  by (simp add: analyze_directory_def run_files init_analyzer_def)


lemma analysis_folders:
  "folders_data (analyze_directory e p root) =
     concat (map (event_folders e p) (safe_walk e p root)) @
     (if list_ex (\<lambda>f. fo_path f = p) (concat (map (event_folders e p) (safe_walk e p root)))
      then [] else [folder_record e p (aggregate root) 0])"
  by (simp add: analyze_directory_def add_root_folder_def run_folders init_analyzer_def
      calculate_folder_size_eq add_folder_def)

lemma yielded_file_recorded:
  assumes "(q, x) \<in> set (yields (safe_walk e p root))" "is_file x"
    "file_record e p q x = Some info"
  shows "info \<in> set (files_data (analyze_directory e p root))"
proof -
  from assms(1) have "Yield q x \<in> set (safe_walk e p root)" by (simp add: yields_mem)
  moreover from assms(2,3) have "info \<in> set (event_files e p (Yield q x))"
    by (simp add: event_files_def)
  ultimately show ?thesis unfolding analysis_files by auto
qed

lemma file_record_plain:
  assumes "resolve x = Some (File n d None r)"
  shows "\<exists>info. file_record e root q x = Some info \<and> fi_path info = q \<and>
           fi_size_bytes info = length d"
proof -
  from assms have st: "os_stat_size (long_path_file e q) x = Inr (length d)"
    by (rule os_stat_size_file)
  then have "file_record e root q x \<noteq> None" by (simp add: file_record_None)
  then obtain info where i: "file_record e root q x = Some info" by blast
  from file_record_Some [OF i] st have "fi_path info = q \<and> fi_size_bytes info = length d"
    by simp
  with i show ?thesis by blast
qed

lemma is_file_resolve: "resolve x = Some (File n d s r) \<Longrightarrow> is_file x"
  by (simp add: is_file_def)

lemma get_file_info_pair:
  "get_file_info e root q x st = (file_record e root q x, snd (get_file_info e root q x st))"
  using get_file_info_record [of e root q x st] by (cases "get_file_info e root q x st") simp

lemma get_file_info_unhashed:
  assumes "file_record e root q x = Some info" "fi_hash info = None"
  shows "get_file_info e root q x st = (Some info, st)"
  using assms
  by (auto simp: file_record_def get_file_info_def Let_def split: sum.splits option.splits if_splits)

lemma get_file_hash_unreadable:
  "resolve x = Some (File n d s (Some c)) \<Longrightarrow> get_file_hash e q x quick = None"
  by (simp add: get_file_hash_def get_file_hash_try_def os_open_def Let_def)

subsection \<open>Files without a digest\<close>

lemmas eval_defs =
  analyze_directory_def init_analyzer_def handle_event_def process_item_def get_file_info_def
  get_file_hash_def get_file_hash_try_def hashed_bytes_def md5_update_all_concat
  concat_read_chunks os_open_def os_stat_size_def is_file_def is_dir_def
  calculate_folder_size_eq aggregate_def add_file_def add_folder_def folder_record_def
  log_error_def add_root_folder_def relative_to_def path_parts_def path_name_def
  path_parent_def extension_of_def path_suffix_def lower_char_def join_def sep_def
  long_path_file_def safe_walk_listable safe_walk_unlistable walk_item_def posix_walk
  plain_digest_def Let_def char_of_def bit_Suc_0_iff

lemma neq_replicate:
  "length xs \<noteq> n \<Longrightarrow> xs \<noteq> replicate n x" "length xs \<noteq> n \<Longrightarrow> replicate n x \<noteq> xs"
  by auto

lemma unhashed_file_item:
  assumes res: "resolve x = Some (File n d None r)"
    and nohash: "104857600 \<le> length d \<or> get_file_hash e q x True = None"
  shows "\<exists>info. file_record e root q x = Some info \<and> fi_path info = q \<and>
           fi_size_bytes info = length d \<and> fi_hash info = None \<and>
           get_file_info e root q x st = (Some info, st) \<and>
           process_item e root q x st = add_file info st"
proof -
  from file_record_plain [OF res, of e root q] obtain info where
    i: "file_record e root q x = Some info" and p: "fi_path info = q"
    and sz: "fi_size_bytes info = length d" by blast
  have h: "fi_hash info = None"
  proof (cases "104857600 \<le> length d")
    case True
    with file_record_Some [OF i] sz show ?thesis by simp
  next
    case False
    with nohash have "get_file_hash e q x True = None" by simp
    with file_record_Some [OF i] sz False show ?thesis by simp
  qed
  from i h have g: "get_file_info e root q x st = (Some info, st)"
    by (rule get_file_info_unhashed)
  from res have "is_file x" by (rule is_file_resolve)
  with i g have "process_item e root q x st = add_file info st"
    by (simp add: process_item_file)
  with i p sz h g show ?thesis by blast
qed

lemma add_file_effect:
  "files_data (add_file info st) = files_data st @ [info] \<and>
   duplicates (add_file info st) = duplicates st \<and>
   errors (add_file info st) = errors st"
  by (simp add: add_file_def)

lemma members_of_analysis:
  assumes "(h, ms) \<in> set (duplicates (analyze_directory e p t))" "m \<in> set ms"
  shows "m_size m < 104857600 \<and>
      (\<exists>info \<in> set (files_data (analyze_directory e p t)).
         fi_hash info = Some h \<and> fi_path info = m_path m \<and> fi_size_bytes info = m_size m)"
  using members_recorded_analyze [of e p t] assms unfolding members_recorded_def by blast

text \<open>
  C4. A file of 100 MiB or more whose size can be read gets a file record with its path
  and its size and without a digest; \<^verbatim>\<open>get_file_info\<close> leaves the analyzer as it was for
  it, so nothing is registered in the duplicate index, and when the scanner yields the
  file its record is in the file collection of the analysis. Every member of every group
  of the duplicate index of an analysis is smaller than 100 MiB and belongs to a file
  record of the collection that has the group's key as its digest.
\<close>

theorem large_file_excluded:
  "(resolve x = Some (File n d None r) \<and> 104857600 \<le> length d \<longrightarrow>
      (\<exists>info. file_record e root q x = Some info \<and> fi_path info = q \<and>
              fi_size_bytes info = length d \<and> fi_hash info = None \<and>
              get_file_info e root q x st = (Some info, st) \<and>
              process_item e root q x st = add_file info st \<and>
              duplicates (process_item e root q x st) = duplicates st \<and>
              ((q, x) \<in> set (yields (safe_walk e root tree)) \<longrightarrow>
                 info \<in> set (files_data (analyze_directory e root tree))))) \<and>
   ((h, ms) \<in> set (duplicates (analyze_directory e p t)) \<and> m \<in> set ms \<longrightarrow>
      m_size m < 104857600 \<and>
      (\<exists>info \<in> set (files_data (analyze_directory e p t)).
         fi_hash info = Some h \<and> fi_path info = m_path m \<and> fi_size_bytes info = m_size m))"
proof (intro conjI impI)
  assume a: "resolve x = Some (File n d None r) \<and> 104857600 \<le> length d"
  then have res: "resolve x = Some (File n d None r)" by simp
  from a unhashed_file_item [OF res, of e q root st] obtain info where
    i: "file_record e root q x = Some info" "fi_path info = q"
      "fi_size_bytes info = length d" "fi_hash info = None"
      "get_file_info e root q x st = (Some info, st)"
      "process_item e root q x st = add_file info st"
    by blast
  from i(6) have d: "duplicates (process_item e root q x st) = duplicates st"
    by (simp add: add_file_effect)
  have y: "(q, x) \<in> set (yields (safe_walk e root tree)) \<longrightarrow>
      info \<in> set (files_data (analyze_directory e root tree))"
    using yielded_file_recorded [of q x e root tree info] is_file_resolve [OF res] i(1) by blast
  from i d y show "\<exists>info. file_record e root q x = Some info \<and> fi_path info = q \<and>
              fi_size_bytes info = length d \<and> fi_hash info = None \<and>
              get_file_info e root q x st = (Some info, st) \<and>
              process_item e root q x st = add_file info st \<and>
              duplicates (process_item e root q x st) = duplicates st \<and>
              ((q, x) \<in> set (yields (safe_walk e root tree)) \<longrightarrow>
                 info \<in> set (files_data (analyze_directory e root tree)))"
    by blast
next
  assume "(h, ms) \<in> set (duplicates (analyze_directory e p t)) \<and> m \<in> set ms"
  then show "m_size m < 104857600"
    and "\<exists>info \<in> set (files_data (analyze_directory e p t)).
         fi_hash info = Some h \<and> fi_path info = m_path m \<and> fi_size_bytes info = m_size m"
    using members_of_analysis [of h ms e p t m] by blast+
qed

text \<open>
  C6. \<^verbatim>\<open>get_file_hash\<close> returns \<^verbatim>\<open>None\<close> for a file that cannot be opened for reading.
  When the size of such a file can be read, \<^verbatim>\<open>get_file_info\<close> returns its record, without
  a digest and without touching the analyzer; the driver appends the record to the file
  collection and leaves the duplicate index and the error list as they were; and when
  the scanner yields the file, the record is in the file collection of the analysis.
\<close>

theorem unreadable_file_kept:
  "(resolve x = Some (File n d s (Some c)) \<longrightarrow> get_file_hash e q x quick = None) \<and>
   (resolve x = Some (File n d None (Some c)) \<longrightarrow>
      (\<exists>info. file_record e root q x = Some info \<and> fi_path info = q \<and>
              fi_size_bytes info = length d \<and> fi_hash info = None \<and>
              get_file_info e root q x st = (Some info, st) \<and>
              process_item e root q x st = add_file info st \<and>
              files_data (process_item e root q x st) = files_data st @ [info] \<and>
              duplicates (process_item e root q x st) = duplicates st \<and>
              errors (process_item e root q x st) = errors st \<and>
              ((q, x) \<in> set (yields (safe_walk e root tree)) \<longrightarrow>
                 info \<in> set (files_data (analyze_directory e root tree)))))"
proof (intro conjI impI)
  assume "resolve x = Some (File n d s (Some c))"
  then show "get_file_hash e q x quick = None" by (rule get_file_hash_unreadable)
next
  assume res: "resolve x = Some (File n d None (Some c))"
  then have "get_file_hash e q x True = None" by (rule get_file_hash_unreadable)
  with unhashed_file_item [OF res, of e q root st] obtain info where
    i: "file_record e root q x = Some info" "fi_path info = q"
      "fi_size_bytes info = length d" "fi_hash info = None"
      "get_file_info e root q x st = (Some info, st)"
      "process_item e root q x st = add_file info st"
    by blast
  from i(6) have d: "files_data (process_item e root q x st) = files_data st @ [info]"
    "duplicates (process_item e root q x st) = duplicates st"
    "errors (process_item e root q x st) = errors st"
    by (simp_all add: add_file_effect)
  have y: "(q, x) \<in> set (yields (safe_walk e root tree)) \<longrightarrow>
      info \<in> set (files_data (analyze_directory e root tree))"
    using yielded_file_recorded [of q x e root tree info] is_file_resolve [OF res] i(1) by blast
  from i d y show "\<exists>info. file_record e root q x = Some info \<and> fi_path info = q \<and>
              fi_size_bytes info = length d \<and> fi_hash info = None \<and>
              get_file_info e root q x st = (Some info, st) \<and>
              process_item e root q x st = add_file info st \<and>
              files_data (process_item e root q x st) = files_data st @ [info] \<and>
              duplicates (process_item e root q x st) = duplicates st \<and>
              errors (process_item e root q x st) = errors st \<and>
              ((q, x) \<in> set (yields (safe_walk e root tree)) \<longrightarrow>
                 info \<in> set (files_data (analyze_directory e root tree)))"
    by blast
qed

lemma yields_tree_big:
  "yields (safe_walk posix_env ''/r'' tree_big) = [(''/r/big.bin'', big_file)]"
  by (simp add: tree_big_def big_file_def safe_walk_listable walk_item_def posix_walk
      join_def sep_def)

lemma dups_tree_dups:
  "duplicates (analyze_directory posix_env ''/r'' tree_dups) =
     [(plain_digest [1, 2, 3],
        [\<lparr>m_path = ''/r/a.txt'', m_name = ''a.txt'', m_size = 3\<rparr>,
         \<lparr>m_path = ''/r/sub/b.TXT'', m_name = ''b.TXT'', m_size = 3\<rparr>])]"
  by (simp add: tree_dups_def eval_defs)

text \<open>A file of exactly 100 MiB alone in a scanned directory, and a member of the one
  group the tree with two equal files gives.\<close>

theorem large_file_excluded_witness:
  "resolve big_file = Some (File ''big.bin'' (replicate 104857600 0) None None) \<and>
   (104857600 :: nat) \<le> length (replicate 104857600 (0 :: byte)) \<and>
   (''/r/big.bin'', big_file) \<in> set (yields (safe_walk posix_env ''/r'' tree_big)) \<and>
   (\<exists>info. get_file_info posix_env ''/r'' ''/r/big.bin'' big_file init_analyzer =
             (Some info, init_analyzer) \<and>
           fi_path info = ''/r/big.bin'' \<and> fi_size_bytes info = 104857600 \<and>
           fi_hash info = None \<and>
           duplicates (process_item posix_env ''/r'' ''/r/big.bin'' big_file init_analyzer) =
             duplicates init_analyzer \<and>
           info \<in> set (files_data (analyze_directory posix_env ''/r'' tree_big))) \<and>
   (plain_digest [1, 2, 3],
      [\<lparr>m_path = ''/r/a.txt'', m_name = ''a.txt'', m_size = 3\<rparr>,
       \<lparr>m_path = ''/r/sub/b.TXT'', m_name = ''b.TXT'', m_size = 3\<rparr>])
     \<in> set (duplicates (analyze_directory posix_env ''/r'' tree_dups)) \<and>
   m_size \<lparr>m_path = ''/r/a.txt'', m_name = ''a.txt'', m_size = 3\<rparr> < 104857600"
proof -
  let ?m = "\<lparr>m_path = ''/r/a.txt'', m_name = ''a.txt'', m_size = 3\<rparr>"
  let ?ms = "[?m, \<lparr>m_path = ''/r/sub/b.TXT'', m_name = ''b.TXT'', m_size = 3\<rparr>]"
  note T = large_file_excluded [of big_file "''big.bin''" "replicate 104857600 0" None
      posix_env "''/r''" "''/r/big.bin''" init_analyzer tree_big
      "plain_digest [1, 2, 3]" ?ms "''/r''" tree_dups ?m]
  have r: "resolve big_file = Some (File ''big.bin'' (replicate 104857600 0) None None)"
    by (simp add: big_file_def)
  have l: "(104857600 :: nat) \<le> length (replicate 104857600 (0 :: byte))" by simp
  have y: "(''/r/big.bin'', big_file) \<in> set (yields (safe_walk posix_env ''/r'' tree_big))"
    by (simp add: yields_tree_big)
  have g: "(plain_digest [1, 2, 3], ?ms) \<in>
      set (duplicates (analyze_directory posix_env ''/r'' tree_dups))"
    by (simp add: dups_tree_dups)
  have mm: "?m \<in> set ?ms" by simp
  from T [THEN conjunct1] r l obtain info where
    i: "get_file_info posix_env ''/r'' ''/r/big.bin'' big_file init_analyzer =
          (Some info, init_analyzer)"
      "fi_path info = ''/r/big.bin''"
      "fi_size_bytes info = length (replicate 104857600 (0 :: byte))"
      "fi_hash info = None"
      "duplicates (process_item posix_env ''/r'' ''/r/big.bin'' big_file init_analyzer) =
         duplicates init_analyzer"
      "(''/r/big.bin'', big_file) \<in> set (yields (safe_walk posix_env ''/r'' tree_big)) \<longrightarrow>
         info \<in> set (files_data (analyze_directory posix_env ''/r'' tree_big))"
    by blast
  from i(3) have sz: "fi_size_bytes info = 104857600" by simp
  from i(6) y have mem: "info \<in> set (files_data (analyze_directory posix_env ''/r'' tree_big))"
    by (rule mp)
  from i(1,2) sz i(4,5) mem have ex: "\<exists>info.
        get_file_info posix_env ''/r'' ''/r/big.bin'' big_file init_analyzer =
             (Some info, init_analyzer) \<and>
           fi_path info = ''/r/big.bin'' \<and> fi_size_bytes info = 104857600 \<and>
           fi_hash info = None \<and>
           duplicates (process_item posix_env ''/r'' ''/r/big.bin'' big_file init_analyzer) =
             duplicates init_analyzer \<and>
           info \<in> set (files_data (analyze_directory posix_env ''/r'' tree_big))"
    by (intro exI [of _ info] conjI)
  from T [THEN conjunct2] g mm have small: "m_size ?m < 104857600"
    by (meson conjI)
  show ?thesis
    using r l y ex g small by (intro conjI)
qed

lemma noext_resolve:
  "resolve (File ''noext'' [4, 5] None (Some EACCES)) =
     Some (File ''noext'' [4, 5] None (Some EACCES))"
  by simp

lemma yields_tree_dups:
  "map fst (yields (safe_walk posix_env ''/r'' tree_dups)) =
     [''/r/a.txt'', ''/r/sub'', ''/r/sub/b.TXT'', ''/r/noext'', ''/r/gone.txt''] \<and>
   (''/r/noext'', File ''noext'' [4, 5] None (Some EACCES))
     \<in> set (yields (safe_walk posix_env ''/r'' tree_dups))"
  by (simp add: tree_dups_def safe_walk_listable walk_item_def posix_walk join_def sep_def)

text \<open>The file \<^verbatim>\<open>noext\<close> of the example, which can be stat'ed and not opened.\<close>

theorem unreadable_file_kept_witness:
  "resolve (File ''noext'' [4, 5] None (Some EACCES)) =
     Some (File ''noext'' [4, 5] None (Some EACCES)) \<and>
   (''/r/noext'', File ''noext'' [4, 5] None (Some EACCES))
     \<in> set (yields (safe_walk posix_env ''/r'' tree_dups)) \<and>
   get_file_hash posix_env ''/r/noext'' (File ''noext'' [4, 5] None (Some EACCES)) True = None \<and>
   (\<exists>info. fi_path info = ''/r/noext'' \<and> fi_size_bytes info = 2 \<and> fi_hash info = None \<and>
      files_data (process_item posix_env ''/r'' ''/r/noext''
          (File ''noext'' [4, 5] None (Some EACCES)) init_analyzer) = [info] \<and>
      duplicates (process_item posix_env ''/r'' ''/r/noext''
          (File ''noext'' [4, 5] None (Some EACCES)) init_analyzer) = [] \<and>
      info \<in> set (files_data (analyze_directory posix_env ''/r'' tree_dups)))"
proof -
  let ?x = "File ''noext'' [4, 5] None (Some EACCES)"
  note T = unreadable_file_kept [of ?x "''noext''" "[4, 5]" None EACCES posix_env
      "''/r/noext''" True "''/r''" init_analyzer tree_dups]
  note y = yields_tree_dups [THEN conjunct2]
  from T [THEN conjunct1] noext_resolve
  have h: "get_file_hash posix_env ''/r/noext'' ?x True = None" by (rule mp)
  from T [THEN conjunct2] noext_resolve obtain info where
    i: "fi_path info = ''/r/noext''"
      "fi_size_bytes info = length [4 :: byte, 5]"
      "fi_hash info = None"
      "files_data (process_item posix_env ''/r'' ''/r/noext'' ?x init_analyzer) =
         files_data init_analyzer @ [info]"
      "duplicates (process_item posix_env ''/r'' ''/r/noext'' ?x init_analyzer) =
         duplicates init_analyzer"
      "(''/r/noext'', ?x) \<in> set (yields (safe_walk posix_env ''/r'' tree_dups)) \<longrightarrow>
         info \<in> set (files_data (analyze_directory posix_env ''/r'' tree_dups))"
    by blast
  from i(2) have sz: "fi_size_bytes info = 2" by simp
  from i(4) have fd: "files_data (process_item posix_env ''/r'' ''/r/noext'' ?x init_analyzer) =
      [info]" by (simp add: init_analyzer_def)
  from i(5) have dd: "duplicates (process_item posix_env ''/r'' ''/r/noext'' ?x init_analyzer) =
      []" by (simp add: init_analyzer_def)
  from i(6) y have mem: "info \<in> set (files_data (analyze_directory posix_env ''/r'' tree_dups))"
    by (rule mp)
  from i(1) sz i(3) fd dd mem have ex: "\<exists>info. fi_path info = ''/r/noext'' \<and>
      fi_size_bytes info = 2 \<and> fi_hash info = None \<and>
      files_data (process_item posix_env ''/r'' ''/r/noext'' ?x init_analyzer) = [info] \<and>
      duplicates (process_item posix_env ''/r'' ''/r/noext'' ?x init_analyzer) = [] \<and>
      info \<in> set (files_data (analyze_directory posix_env ''/r'' tree_dups))"
    by (intro exI [of _ info] conjI)
  show ?thesis
    using noext_resolve y h ex by (intro conjI)
qed

subsection \<open>Directories that cannot be listed\<close>






subsection \<open>The record of the root\<close>

lemma folder_record_path: "fo_path (folder_record e q agg dp) = q"
  by (simp add: folder_record_def split: prod.splits)

lemma event_folders_path:
  assumes "rec \<in> set (event_folders e p ev)"
  shows "\<exists>q x. ev = Yield q x \<and> fo_path rec = q \<and> is_dir x \<and>
      (\<exists>dp. rec = folder_record e q (aggregate x) dp)"
proof (cases ev)
  case (Failure msg)
  with assms show ?thesis by (simp add: event_folders_def)
next
  case (Yield q x)
  show ?thesis
  proof (cases "is_dir x")
    case False
    with assms Yield show ?thesis by (simp add: event_folders_def)
  next
    case True
    show ?thesis
    proof (cases "if q \<noteq> p then relative_to e q p else Inr []")
      case (Inl err)
      with assms Yield True show ?thesis by (simp add: event_folders_def)
    next
      case (Inr rel)
      with assms Yield True
      have "rec = folder_record e q (aggregate x) (if rel \<noteq> [] then length rel else 0)"
        by (simp add: event_folders_def)
      with Yield True show ?thesis by (auto simp: folder_record_path)
    qed
  qed
qed

lemma root_record_present:
  "list_ex (\<lambda>f. fo_path f = p) (folders_data (analyze_directory e p root))"
  by (auto simp: analysis_folders list_ex_iff folder_record_path)

lemma root_record_synthesized:
  assumes "p \<notin> fst ` set (yields (safe_walk e p root))"
  shows "folders_data (analyze_directory e p root) =
     concat (map (event_folders e p) (safe_walk e p root)) @
     [folder_record e p (aggregate root) 0]"
proof -
  have "\<not> list_ex (\<lambda>f. fo_path f = p) (concat (map (event_folders e p) (safe_walk e p root)))"
  proof
    assume "list_ex (\<lambda>f. fo_path f = p) (concat (map (event_folders e p) (safe_walk e p root)))"
    then obtain rec ev where ev: "ev \<in> set (safe_walk e p root)"
      and rec: "rec \<in> set (event_folders e p ev)" and fp: "fo_path rec = p"
      by (auto simp: list_ex_iff)
    from event_folders_path [OF rec] fp obtain x where "ev = Yield p x" by auto
    with ev have "(p, x) \<in> set (yields (safe_walk e p root))" by (simp add: yields_mem)
    with assms show False by force
  qed
  then show ?thesis by (simp add: analysis_folders)
qed

lemma empty_root:
  "files_data (analyze_directory e p (Dir n None [])) = [] \<and>
   folders_data (analyze_directory e p (Dir n None [])) =
     [\<lparr>fo_path = p, fo_name = path_name e p, fo_parent_folder = path_parent e p,
       fo_size_bytes = 0, fo_file_count = 0, fo_subfolder_count = 0, fo_depth = 0,
       fo_total_items = 0\<rparr>]"
  by (simp add: analysis_files analysis_folders safe_walk_listable aggregate_def
      folder_record_def)

text \<open>
  C7. The folder collection of every analysis has a record with the path of the root.
  When the scanner does not yield the root path, that record is appended after the
  records of the walk, with the aggregate of the root and depth 0. The analysis of an
  empty root directory has no file record and exactly one folder record, the root's, with
  size 0, file count 0 and subfolder count 0.
\<close>

theorem root_folder_record:
  "list_ex (\<lambda>f. fo_path f = p) (folders_data (analyze_directory e p root)) \<and>
   (p \<notin> fst ` set (yields (safe_walk e p root)) \<longrightarrow>
      folders_data (analyze_directory e p root) =
        concat (map (event_folders e p) (safe_walk e p root)) @
        [folder_record e p (aggregate root) 0]) \<and>
   files_data (analyze_directory e p (Dir n None [])) = [] \<and>
   folders_data (analyze_directory e p (Dir n None [])) =
     [\<lparr>fo_path = p, fo_name = path_name e p, fo_parent_folder = path_parent e p,
       fo_size_bytes = 0, fo_file_count = 0, fo_subfolder_count = 0, fo_depth = 0,
       fo_total_items = 0\<rparr>]"
  using root_record_present [of p e root] root_record_synthesized [of p e root]
    empty_root [of e p n]
  by (intro conjI impI) simp_all

text \<open>The example tree, whose scan does not yield \<^verbatim>\<open>/r\<close>, and the empty directory.\<close>

theorem root_folder_record_witness:
  "''/r'' \<notin> fst ` set (yields (safe_walk posix_env ''/r'' tree_example)) \<and>
   last (folders_data (analyze_directory posix_env ''/r'' tree_example)) =
     \<lparr>fo_path = ''/r'', fo_name = ''r'', fo_parent_folder = ''/'',
      fo_size_bytes = 6, fo_file_count = 4, fo_subfolder_count = 3, fo_depth = 0,
      fo_total_items = 7\<rparr> \<and>
   files_data (analyze_directory posix_env ''/r'' (Dir ''r'' None [])) = [] \<and>
   folders_data (analyze_directory posix_env ''/r'' (Dir ''r'' None [])) =
     [\<lparr>fo_path = ''/r'', fo_name = ''r'', fo_parent_folder = ''/'',
       fo_size_bytes = 0, fo_file_count = 0, fo_subfolder_count = 0, fo_depth = 0,
       fo_total_items = 0\<rparr>]"
proof -
  note T = root_folder_record [of "''/r''" posix_env tree_example "''r''"]
  have ny: "''/r'' \<notin> fst ` set (yields (safe_walk posix_env ''/r'' tree_example))"
    using safe_walk_tree_example by (simp flip: set_map)
  from T [THEN conjunct2, THEN conjunct1] ny
  have f: "folders_data (analyze_directory posix_env ''/r'' tree_example) =
        concat (map (event_folders posix_env ''/r'') (safe_walk posix_env ''/r'' tree_example)) @
        [folder_record posix_env ''/r'' (aggregate tree_example) 0]"
    by (rule mp)
  have l: "last (folders_data (analyze_directory posix_env ''/r'' tree_example)) =
     \<lparr>fo_path = ''/r'', fo_name = ''r'', fo_parent_folder = ''/'',
      fo_size_bytes = 6, fo_file_count = 4, fo_subfolder_count = 3, fo_depth = 0,
      fo_total_items = 7\<rparr>"
    unfolding f aggregate_tree_example
    by (simp add: folder_record_def path_name_def path_parent_def sep_def)
  from T [THEN conjunct2, THEN conjunct2]
  have e: "files_data (analyze_directory posix_env ''/r'' (Dir ''r'' None [])) = [] \<and>
   folders_data (analyze_directory posix_env ''/r'' (Dir ''r'' None [])) =
     [\<lparr>fo_path = ''/r'', fo_name = ''r'', fo_parent_folder = ''/'',
       fo_size_bytes = 0, fo_file_count = 0, fo_subfolder_count = 0, fo_depth = 0,
       fo_total_items = 0\<rparr>]"
    by (simp add: path_name_def path_parent_def sep_def)
  show ?thesis
    using ny l e [THEN conjunct1] e [THEN conjunct2] by (intro conjI)
qed

subsection \<open>The file-type summary of an analysis\<close>

lemma summary_entry:
  assumes "(k, v) \<in> set (file_types_summary (analyze_directory e p root))"
  shows "ts_count v = length (filter (\<lambda>i. fi_extension i = k)
                                (files_data (analyze_directory e p root))) \<and>
         ts_size v = sum_list (map fi_size_bytes (filter (\<lambda>i. fi_extension i = k)
                                (files_data (analyze_directory e p root)))) \<and>
         0 < ts_count v"
proof -
  let ?A = "analyze_directory e p root"
  from summary_consistent_analyze [of e p root]
  have d: "distinct (map fst (file_types_summary ?A))"
    and m: "map_of (file_types_summary ?A) k = summary_of (files_data ?A) k"
    by (simp_all add: summary_consistent_def)
  from d assms have "map_of (file_types_summary ?A) k = Some v" by simp
  with m have s: "summary_of (files_data ?A) k = Some v" by simp
  then have ne: "filter (\<lambda>i. fi_extension i = k) (files_data ?A) \<noteq> []"
    by (auto simp: summary_of_def Let_def split: if_splits)
  with s have "v = \<lparr>ts_count = length (filter (\<lambda>i. fi_extension i = k) (files_data ?A)),
      ts_size = sum_list (map fi_size_bytes (filter (\<lambda>i. fi_extension i = k) (files_data ?A)))\<rparr>"
    by (simp add: summary_of_def Let_def)
  with ne show ?thesis by simp
qed

lemma summary_keys:
  assumes "i \<in> set (files_data (analyze_directory e p root))"
  shows "fi_extension i \<in> fst ` set (file_types_summary (analyze_directory e p root))"
proof -
  let ?A = "analyze_directory e p root"
  from summary_consistent_analyze [of e p root]
  have m: "map_of (file_types_summary ?A) (fi_extension i) =
      summary_of (files_data ?A) (fi_extension i)"
    by (simp add: summary_consistent_def)
  from assms have "filter (\<lambda>j. fi_extension j = fi_extension i) (files_data ?A) \<noteq> []"
    by (auto simp: filter_empty_conv)
  then have "summary_of (files_data ?A) (fi_extension i) \<noteq> None"
    by (simp add: summary_of_def Let_def)
  with m have "map_of (file_types_summary ?A) (fi_extension i) \<noteq> None" by simp
  then show ?thesis by (simp add: map_of_eq_None_iff)
qed

lemma stat_failed_skipped:
  assumes "is_file x" "os_stat_size (long_path_file e q) x = Inl err"
  shows "files_data (process_item e root q x st) = files_data st \<and>
         file_types_summary (process_item e root q x st) = file_types_summary st"
proof -
  from assms(2) have "file_record e root q x = None" by (simp add: file_record_None)
  with assms(1) get_file_info_keeps [of e root q x st] show ?thesis
    by (simp add: process_item_file)
qed

text \<open>
  C10. After \<^verbatim>\<open>analyze_directory\<close> the file-type summary has one entry for an extension,
  and looking an extension up gives the number and the total size of the file records
  with that extension, or nothing when there is none. So the count and the size of every
  entry are the number and the sum of the sizes of the file records with its key, the
  extension of every file record is a key, and a file whose size cannot be read changes
  neither the file collection nor the summary.
\<close>

theorem file_types_summary_consistent:
  "distinct (map fst (file_types_summary (analyze_directory e p root))) \<and>
   map_of (file_types_summary (analyze_directory e p root)) ext =
     summary_of (files_data (analyze_directory e p root)) ext \<and>
   ((k, v) \<in> set (file_types_summary (analyze_directory e p root)) \<longrightarrow>
      ts_count v = length (filter (\<lambda>i. fi_extension i = k)
                             (files_data (analyze_directory e p root))) \<and>
      ts_size v = sum_list (map fi_size_bytes (filter (\<lambda>i. fi_extension i = k)
                             (files_data (analyze_directory e p root)))) \<and>
      0 < ts_count v) \<and>
   (i \<in> set (files_data (analyze_directory e p root)) \<longrightarrow>
      fi_extension i \<in> fst ` set (file_types_summary (analyze_directory e p root))) \<and>
   (is_file x \<and> os_stat_size (long_path_file e q) x = Inl err \<longrightarrow>
      files_data (process_item e rp q x st) = files_data st \<and>
      file_types_summary (process_item e rp q x st) = file_types_summary st)"
proof -
  from summary_consistent_analyze [of e p root]
  have d: "distinct (map fst (file_types_summary (analyze_directory e p root)))"
    and m: "map_of (file_types_summary (analyze_directory e p root)) ext =
      summary_of (files_data (analyze_directory e p root)) ext"
    by (simp_all add: summary_consistent_def)
  have a: "(k, v) \<in> set (file_types_summary (analyze_directory e p root)) \<longrightarrow>
      ts_count v = length (filter (\<lambda>i. fi_extension i = k)
                             (files_data (analyze_directory e p root))) \<and>
      ts_size v = sum_list (map fi_size_bytes (filter (\<lambda>i. fi_extension i = k)
                             (files_data (analyze_directory e p root)))) \<and>
      0 < ts_count v"
    using summary_entry [of k v e p root] by (rule impI)
  have b: "i \<in> set (files_data (analyze_directory e p root)) \<longrightarrow>
      fi_extension i \<in> fst ` set (file_types_summary (analyze_directory e p root))"
    using summary_keys [of i e p root] by (rule impI)
  have c: "is_file x \<and> os_stat_size (long_path_file e q) x = Inl err \<longrightarrow>
      files_data (process_item e rp q x st) = files_data st \<and>
      file_types_summary (process_item e rp q x st) = file_types_summary st"
    using stat_failed_skipped [of x e q err rp st] by blast
  show ?thesis
    using d m a b c by (intro conjI)
qed

lemma summary_tree_dups:
  "file_types_summary (analyze_directory posix_env ''/r'' tree_dups) =
     [(''.txt'', \<lparr>ts_count = 2, ts_size = 6\<rparr>),
      (''no_extension'', \<lparr>ts_count = 1, ts_size = 2\<rparr>)]"
  by (simp add: tree_dups_def eval_defs)

lemma files_tree_dups:
  "map (\<lambda>i. (fi_path i, fi_extension i, fi_size_bytes i))
     (files_data (analyze_directory posix_env ''/r'' tree_dups)) =
     [(''/r/a.txt'', ''.txt'', 3), (''/r/sub/b.TXT'', ''.txt'', 3),
      (''/r/noext'', ''no_extension'', 2)]"
  by (simp add: tree_dups_def eval_defs)

text \<open>The entry of \<^verbatim>\<open>.txt\<close> in the example, and the file \<^verbatim>\<open>gone.txt\<close> that cannot be
  stat'ed.\<close>

theorem file_types_summary_consistent_witness:
  "(''.txt'', \<lparr>ts_count = 2, ts_size = 6\<rparr>)
     \<in> set (file_types_summary (analyze_directory posix_env ''/r'' tree_dups)) \<and>
   length (filter (\<lambda>i. fi_extension i = ''.txt'')
      (files_data (analyze_directory posix_env ''/r'' tree_dups))) = 2 \<and>
   sum_list (map fi_size_bytes (filter (\<lambda>i. fi_extension i = ''.txt'')
      (files_data (analyze_directory posix_env ''/r'' tree_dups)))) = 6 \<and>
   map (\<lambda>i. (fi_path i, fi_extension i, fi_size_bytes i))
     (files_data (analyze_directory posix_env ''/r'' tree_dups)) =
     [(''/r/a.txt'', ''.txt'', 3), (''/r/sub/b.TXT'', ''.txt'', 3),
      (''/r/noext'', ''no_extension'', 2)] \<and>
   is_file (File ''gone.txt'' [6] (Some ENOENT) None) \<and>
   os_stat_size (long_path_file posix_env ''/r/gone.txt'')
     (File ''gone.txt'' [6] (Some ENOENT) None) = Inl (OSError ENOENT ''/r/gone.txt'') \<and>
   files_data (process_item posix_env ''/r'' ''/r/gone.txt''
     (File ''gone.txt'' [6] (Some ENOENT) None) init_analyzer) = [] \<and>
   file_types_summary (process_item posix_env ''/r'' ''/r/gone.txt''
     (File ''gone.txt'' [6] (Some ENOENT) None) init_analyzer) = []"
proof -
  let ?x = "File ''gone.txt'' [6] (Some ENOENT) None"
  let ?v = "\<lparr>ts_count = 2, ts_size = 6\<rparr>"
  note T = file_types_summary_consistent [of posix_env "''/r''" tree_dups "''.txt''"
      "''.txt''" ?v _ ?x "''/r/gone.txt''" "OSError ENOENT ''/r/gone.txt''" "''/r''"
      init_analyzer]
  have mem: "(''.txt'', ?v) \<in> set (file_types_summary (analyze_directory posix_env ''/r'' tree_dups))"
    by (simp add: summary_tree_dups)
  from T [THEN conjunct2, THEN conjunct2, THEN conjunct1] mem
  have c: "ts_count ?v = length (filter (\<lambda>i. fi_extension i = ''.txt'')
                             (files_data (analyze_directory posix_env ''/r'' tree_dups))) \<and>
      ts_size ?v = sum_list (map fi_size_bytes (filter (\<lambda>i. fi_extension i = ''.txt'')
                             (files_data (analyze_directory posix_env ''/r'' tree_dups)))) \<and>
      0 < ts_count ?v"
    by (rule mp)
  from c have c1: "length (filter (\<lambda>i. fi_extension i = ''.txt'')
      (files_data (analyze_directory posix_env ''/r'' tree_dups))) = 2" by simp
  from c have c2: "sum_list (map fi_size_bytes (filter (\<lambda>i. fi_extension i = ''.txt'')
      (files_data (analyze_directory posix_env ''/r'' tree_dups)))) = 6" by simp
  have f: "is_file ?x" by (simp add: is_file_def)
  have s: "os_stat_size (long_path_file posix_env ''/r/gone.txt'') ?x =
      Inl (OSError ENOENT ''/r/gone.txt'')"
    by (simp add: os_stat_size_def long_path_file_def)
  from T [THEN conjunct2, THEN conjunct2, THEN conjunct2, THEN conjunct2] f s
  have k: "files_data (process_item posix_env ''/r'' ''/r/gone.txt'' ?x init_analyzer) =
        files_data init_analyzer \<and>
      file_types_summary (process_item posix_env ''/r'' ''/r/gone.txt'' ?x init_analyzer) =
        file_types_summary init_analyzer"
    by (meson conjI)
  from k have k1: "files_data (process_item posix_env ''/r'' ''/r/gone.txt'' ?x init_analyzer) = []"
    by (simp add: init_analyzer_def)
  from k have k2: "file_types_summary (process_item posix_env ''/r'' ''/r/gone.txt'' ?x
      init_analyzer) = []"
    by (simp add: init_analyzer_def)
  show ?thesis
    using mem c1 c2 files_tree_dups f s k1 k2 by (intro conjI)
qed

subsection \<open>The aggregates of the folder records\<close>







subsection \<open>The duplicate sheet of an analysis\<close>

text \<open>The order of the groups on a scanned tree: the group written first has the
  smaller smallest-path member.\<close>

lemma dups_tree_sizes:
  "duplicates (analyze_directory posix_env ''/r'' tree_sizes) =
     [(plain_digest (replicate 1048576 0),
        [\<lparr>m_path = ''/r/z.bin'', m_name = ''z.bin'', m_size = 3145728\<rparr>,
         \<lparr>m_path = ''/r/a.bin'', m_name = ''a.bin'', m_size = 2097152\<rparr>]),
      (plain_digest (replicate 1048576 1),
        [\<lparr>m_path = ''/r/m.bin'', m_name = ''m.bin'', m_size = 2621440\<rparr>,
         \<lparr>m_path = ''/r/c.bin'', m_name = ''c.bin'', m_size = 2621440\<rparr>]),
      (plain_digest [1, 2, 3, 4, 5],
        [\<lparr>m_path = ''/r/u.bin'', m_name = ''u.bin'', m_size = 5\<rparr>])]"
  by (simp add: tree_sizes_def eval_defs neq_replicate)

lemma sheet_tree_sizes:
  "create_duplicates_sheet (duplicates (analyze_directory posix_env ''/r'' tree_sizes)) =
     [(plain_digest (replicate 1048576 0),
        [\<lparr>m_path = ''/r/a.bin'', m_name = ''a.bin'', m_size = 2097152\<rparr>,
         \<lparr>m_path = ''/r/z.bin'', m_name = ''z.bin'', m_size = 3145728\<rparr>]),
      (plain_digest (replicate 1048576 1),
        [\<lparr>m_path = ''/r/c.bin'', m_name = ''c.bin'', m_size = 2621440\<rparr>,
         \<lparr>m_path = ''/r/m.bin'', m_name = ''m.bin'', m_size = 2621440\<rparr>])]"
  unfolding dups_tree_sizes
  by (simp add: create_duplicates_sheet_def duplicate_groups_def sorted_desc_def first_size_def)

end
